theory Spec2Isabelle
  imports Main "HOL-Library.Char_ord"
begin

section \<open>JavaScript strings\<close>

text \<open>
  A string is a list of code units. The model covers the code units U+0000 to U+00FF
  (type \<^typ>\<open>char\<close>); \<open>trim\<close>, \<open>toLowerCase\<close> and the class \<open>\s\<close> are the
  restrictions of the ECMAScript ones to that range.
\<close>

definition Rng :: "char \<Rightarrow> char \<Rightarrow> char \<Rightarrow> bool" where
  \<comment> \<open>a character range \<open>lo-hi\<close> inside a class\<close>
  "Rng lo hi c = (lo \<le> c \<and> c \<le> hi)"

definition is_space :: "char \<Rightarrow> bool" where
  \<comment> \<open>WhiteSpace and LineTerminator: TAB, LF, VT, FF, CR, SP, NBSP\<close>
  "is_space c = (c \<in> set [CHR 0x09, CHR 0x0A, CHR 0x0B, CHR 0x0C, CHR 0x0D, CHR 0x20, CHR 0xA0])"

definition is_digit :: "char \<Rightarrow> bool" where
  \<comment> \<open>the class \<open>\d\<close>\<close>
  "is_digit c = Rng CHR ''0'' CHR ''9'' c"

definition trim :: "string \<Rightarrow> string" where
  "trim s = rev (dropWhile is_space (rev (dropWhile is_space s)))"

definition is_upper :: "char \<Rightarrow> bool" where
  \<comment> \<open>the code units with a lower-case mapping: A-Z, and U+00C0 to U+00DE but U+00D7\<close>
  "is_upper c = (Rng CHR ''A'' CHR ''Z'' c \<or> (Rng CHR 0xC0 CHR 0xDE c \<and> c \<noteq> CHR 0xD7))"

definition toLowerCase_char :: "char \<Rightarrow> char" where
  \<comment> \<open>the lower-case mapping adds 0x20, which sets bit 5 (clear in every upper-case code unit)\<close>
  "toLowerCase_char c =
     (if is_upper c
      then (case c of Char b0 b1 b2 b3 b4 b5 b6 b7 \<Rightarrow> Char b0 b1 b2 b3 b4 True b6 b7)
      else c)"

definition toLowerCase :: "string \<Rightarrow> string" where
  "toLowerCase s = map toLowerCase_char s"

definition padStart :: "nat \<Rightarrow> char \<Rightarrow> string \<Rightarrow> string" where
  "padStart n c s = replicate (n - length s) c @ s"

fun Number_toString :: "nat \<Rightarrow> string" where
  "Number_toString n =
     (if n < 10 then [''0123456789'' ! n]
      else Number_toString (n div 10) @ [''0123456789'' ! (n mod 10)])"

definition digit_val :: "char \<Rightarrow> nat" where
  "digit_val c = of_char c - 48"

definition parseInt10 :: "string \<Rightarrow> nat option" where
  \<comment> \<open>\<open>parseInt(s, 10)\<close> on a string without sign or leading blanks: the leading digits,
      \<open>NaN\<close> (here \<open>None\<close>) when there is none\<close>
  "parseInt10 s =
     (let ds = takeWhile is_digit s
      in if ds = [] then None else Some (foldl (\<lambda>n c. 10 * n + digit_val c) 0 ds))"

fun split_on :: "char \<Rightarrow> string \<Rightarrow> string list" where
  \<comment> \<open>\<open>s.split(d)\<close> for a one-character separator\<close>
  "split_on d [] = [[]]"
| "split_on d (x # xs) =
     (if x = d then [] # split_on d xs
      else (case split_on d xs of [] \<Rightarrow> [[x]] | y # ys \<Rightarrow> (x # y) # ys))"

section \<open>Regular expressions\<close>

text \<open>
  The regular expressions of the source are terms of \<open>rx\<close>, and a backtracking matcher
  runs them. A matcher state is the index reached in the input, the rest of the input
  from there, and the capture groups set so far. \<open>rxm r st\<close> lists the states in which
  \<open>r\<close> can end when it starts in \<open>st\<close>, in the order a backtracking matcher tries them:
  the left alternative first, the longest repetition first.
\<close>

type_synonym captures = "nat \<rightharpoonup> string"

type_synonym mstate = "nat \<times> string \<times> captures"

datatype rx =
    Cls "char \<Rightarrow> bool"                   \<comment> \<open>one character of a class\<close>
  | Bol                                 \<comment> \<open>\<open>^\<close>\<close>
  | Eol                                 \<comment> \<open>\<open>$\<close>\<close>
  | Seq rx rx
  | Alt rx rx                           \<comment> \<open>\<open>a|b\<close>\<close>
  | Opt rx                              \<comment> \<open>\<open>a?\<close>\<close>
  | Rep "char \<Rightarrow> bool" nat "nat option"   \<comment> \<open>a class repeated: \<open>{lo,hi}\<close>, \<open>+\<close>, \<open>*\<close>\<close>
  | Grp nat rx                          \<comment> \<open>the capture group of that number\<close>
  | Star rx                             \<comment> \<open>\<open>a*\<close>\<close>

fun rxm :: "rx \<Rightarrow> mstate \<Rightarrow> mstate list" where
  "rxm (Cls p) (i, s, c) =
     (case s of [] \<Rightarrow> [] | x # xs \<Rightarrow> if p x then [(Suc i, xs, c)] else [])"
| "rxm Bol (i, s, c) = (if i = 0 then [(i, s, c)] else [])"
| "rxm Eol (i, s, c) = (if s = [] then [(i, s, c)] else [])"
| "rxm (Seq a b) st = concat (map (rxm b) (rxm a st))"
| "rxm (Alt a b) st = rxm a st @ rxm b st"
| "rxm (Opt a) st = rxm a st @ [st]"
| "rxm (Rep p lo hi) (i, s, c) =
     (let n = length (takeWhile p s);
          m = (case hi of None \<Rightarrow> n | Some h \<Rightarrow> min h n)
      in map (\<lambda>k. (i + k, drop k s, c)) (rev [lo..<Suc m]))"
| "rxm (Grp g a) (i, s, c) =
     map (\<lambda>(j, s', c'). (j, s', c'(g \<mapsto> take (j - i) s))) (rxm a (i, s, c))"
| "rxm (Star a) (i, s, c) =
     concat (map (\<lambda>(j, s', c'). if length s' < length s then rxm (Star a) (j, s', c') else [])
                 (rxm a (i, s, c)))
     @ [(i, s, c)]"

declare rxm.simps(9) [simp del]

declare Number_toString.simps [simp del]

definition Chr :: "char \<Rightarrow> rx" where
  \<comment> \<open>a literal character\<close>
  "Chr ch = Cls (\<lambda>c. c = ch)"

fun rx_search :: "rx \<Rightarrow> nat \<Rightarrow> string \<Rightarrow> (nat \<times> mstate) option" where
  \<comment> \<open>the leftmost match at or after index \<open>i\<close>, where \<open>s\<close> is the input from \<open>i\<close> on:
      the index where it starts and the state where it ends\<close>
  "rx_search r i s =
     (case rxm r (i, s, Map.empty) of
        m # _ \<Rightarrow> Some (i, m)
      | [] \<Rightarrow> (case s of [] \<Rightarrow> None | _ # xs \<Rightarrow> rx_search r (Suc i) xs))"

declare rx_search.simps [simp del]

definition rx_match :: "rx \<Rightarrow> string \<Rightarrow> captures option" where
  \<comment> \<open>\<open>s.match(r)\<close> for a regular expression without the \<open>g\<close> flag: the groups, or \<open>null\<close>\<close>
  "rx_match r s = map_option (\<lambda>(_, _, _, c). c) (rx_search r 0 s)"

definition rx_test :: "rx \<Rightarrow> string \<Rightarrow> bool" where
  \<comment> \<open>\<open>r.test(s)\<close>\<close>
  "rx_test r s = (rx_search r 0 s \<noteq> None)"

definition grp :: "captures \<Rightarrow> nat \<Rightarrow> string" where
  \<comment> \<open>\<open>m[n]\<close> where a string is needed: a group that did not take part is \<open>undefined\<close>\<close>
  "grp m n = (case m n of Some v \<Rightarrow> v | None \<Rightarrow> ''undefined'')"

subsection \<open>Global replacement\<close>

text \<open>
  A match never moves backwards: the state where it ends is as far into the input as
  it has consumed. This is what makes the replacement loop below terminate.
\<close>

lemma rxm_position:
  "(j, s', c') \<in> set (rxm r (i, s, c)) \<Longrightarrow> j + length s' = i + length s \<and> length s' \<le> length s"
proof (induction r "(i, s, c)" arbitrary: i s c j s' c' rule: rxm.induct)
  case (1 p i s c)
  then show ?case by (auto split: list.splits if_splits)
next
  case (2 i s c)
  then show ?case by (auto split: if_splits)
next
  case (3 i s c)
  then show ?case by (auto split: if_splits)
next
  case (4 a b i s c)
  from "4.prems" obtain j1 s1 c1 where
    a: "(j1, s1, c1) \<in> set (rxm a (i, s, c))" and b: "(j, s', c') \<in> set (rxm b (j1, s1, c1))"
    by auto
  from "4.hyps"(1)[OF a] "4.hyps"(2)[OF a b] show ?case by simp
next
  case (5 a b i s c)
  then show ?case by auto
next
  case (6 a i s c)
  then show ?case by auto
next
  case (7 p lo hi i s c)
  define m where "m = (case hi of None \<Rightarrow> length (takeWhile p s) | Some h \<Rightarrow> min h (length (takeWhile p s)))"
  have "m \<le> length (takeWhile p s)" by (simp add: m_def split: option.splits)
  also have "\<dots> \<le> length s" by (rule length_takeWhile_le)
  finally have m: "m \<le> length s" .
  from "7.prems" obtain k where "k \<le> m" "j = i + k" "s' = drop k s"
    by (auto simp: Let_def m_def[symmetric])
  with m show ?case by simp
next
  case (8 g a i s c)
  from "8.prems" obtain c0 where "(j, s', c0) \<in> set (rxm a (i, s, c))"
    by (auto simp: image_iff)
  then show ?case by (rule "8.hyps")
next
  case (9 a i s c)
  from "9.prems"[unfolded rxm.simps(9)[of a i s c]] consider
    (stop) "(j, s', c') = (i, s, c)"
    | (iter) j1 s1 c1 where "(j1, s1, c1) \<in> set (rxm a (i, s, c))" "length s1 < length s"
        "(j, s', c') \<in> set (rxm (Star a) (j1, s1, c1))"
    by (auto split: if_splits)
  then show ?case
  proof cases
    case stop
    then show ?thesis by simp
  next
    case iter
    from "9.hyps"(1)[OF iter(1)] "9.hyps"(2)[OF iter(1) refl refl iter(2) iter(3)]
    show ?thesis by simp
  qed
qed

lemma rx_search_Nil:
  "rxm r (i, s, Map.empty) = [] \<Longrightarrow>
     rx_search r i s = (case s of [] \<Rightarrow> None | _ # xs \<Rightarrow> rx_search r (Suc i) xs)"
  by (subst rx_search.simps) simp

lemma rx_search_Cons:
  "rxm r (i, s, Map.empty) = m # ms \<Longrightarrow> rx_search r i s = Some (i, m)"
  by (subst rx_search.simps) simp

lemma rx_search_position:
  "rx_search r i s = Some (j, k, s', c') \<Longrightarrow>
     i \<le> j \<and> j \<le> k \<and> k + length s' = i + length s \<and> length s' \<le> length s"
proof (induction s arbitrary: i)
  case Nil
  show ?case
  proof (cases "rxm r (i, [], Map.empty)")
    case Nil
    with Nil.prems show ?thesis by (simp add: rx_search_Nil)
  next
    case (Cons m ms)
    with Nil.prems have "(k, s', c') \<in> set (rxm r (i, [], Map.empty))" and "j = i"
      by (auto simp: rx_search_Cons)
    with rxm_position[of k s' c' r i "[]" Map.empty] show ?thesis by auto
  qed
next
  case (Cons x xs)
  show ?case
  proof (cases "rxm r (i, x # xs, Map.empty)")
    case Nil
    with Cons.prems have "rx_search r (Suc i) xs = Some (j, k, s', c')"
      by (simp add: rx_search_Nil)
    from Cons.IH[OF this] show ?thesis by auto
  next
    case (Cons m ms)
    with Cons.prems have "(k, s', c') \<in> set (rxm r (i, x # xs, Map.empty))" and "j = i"
      by (auto simp: rx_search_Cons)
    with rxm_position[of k s' c' r i "x # xs" Map.empty] show ?thesis by auto
  qed
qed

function replace_g :: "rx \<Rightarrow> string \<Rightarrow> nat \<Rightarrow> string \<Rightarrow> string" where
  "replace_g r rep i s =
     (case rx_search r i s of
        None \<Rightarrow> s
      | Some (j, k, s', c) \<Rightarrow>
          take (j - i) s @ rep @
          (if j < k then replace_g r rep k s'
           else (case s' of [] \<Rightarrow> [] | x # xs \<Rightarrow> x # replace_g r rep (Suc k) xs)))"
  by pat_completeness auto

termination
proof (relation "measure (\<lambda>(r, rep, i, s). length s)")
  show "wf (measure (\<lambda>(r, rep, i, s). length s))" by simp
next
  fix r :: rx and rep :: string and i s x2 j y k ya s' c
  assume "rx_search r i s = Some x2" "(j, y) = x2" "(k, ya) = y" "(s', c) = ya" "j < k"
  then have "rx_search r i s = Some (j, k, s', c)" by simp
  from rx_search_position[OF this] \<open>j < k\<close>
  show "((r, rep, k, s'), (r, rep, i, s)) \<in> measure (\<lambda>(r, rep, i, s). length s)" by simp
next
  fix r :: rx and rep :: string and i s x2 j y k ya s' c x xs
  assume "rx_search r i s = Some x2" "(j, y) = x2" "(k, ya) = y" "(s', c) = ya" "s' = x # xs"
  then have "rx_search r i s = Some (j, k, x # xs, c)" by simp
  from rx_search_position[OF this]
  show "((r, rep, Suc k, xs), (r, rep, i, s)) \<in> measure (\<lambda>(r, rep, i, s). length s)" by simp
qed

declare replace_g.simps [simp del]

section \<open>The event model\<close>

datatype js_thrown =
    JsError string      \<comment> \<open>an \<open>Error\<close> object and its message\<close>
  | JsNonError          \<comment> \<open>a thrown value that is no \<open>Error\<close>\<close>

definition alnum :: "char \<Rightarrow> bool" where
  \<comment> \<open>the class \<open>[a-z0-9]\<close>\<close>
  "alnum c = (Rng CHR ''a'' CHR ''z'' c \<or> Rng CHR ''0'' CHR ''9'' c)"

text \<open>
  \<open>generateSlug\<close>: the title in lower case, trimmed, with \<open>/[^a-z0-9]+/g\<close> replaced by a
  dash and then \<open>/^-+|-+$/g\<close> replaced by the empty string.
\<close>

definition generateSlug :: "string \<Rightarrow> string" where
  "generateSlug title =
     replace_g (Alt (Seq Bol (Rep (\<lambda>c. c = CHR ''-'') 1 None))
                    (Seq (Rep (\<lambda>c. c = CHR ''-'') 1 None) Eol)) [] 0
       (replace_g (Rep (\<lambda>c. \<not> alnum c) 1 None) ''-'' 0
          (trim (toLowerCase title)))"

definition twentyFourHourPattern :: rx where
  \<comment> \<open>\<open>/^([01]\d|2[0-3]):([0-5]\d)$/\<close>\<close>
  "twentyFourHourPattern =
     Seq Bol
    (Seq (Grp 1 (Alt (Seq (Cls (Rng CHR ''0'' CHR ''1'')) (Cls is_digit))
                     (Seq (Chr CHR ''2'') (Cls (Rng CHR ''0'' CHR ''3'')))))
    (Seq (Chr CHR '':'')
    (Seq (Grp 2 (Seq (Cls (Rng CHR ''0'' CHR ''5'')) (Cls is_digit)))
         Eol)))"

definition twelveHourPattern :: rx where
  \<comment> \<open>\<open>/^(\d{1,2})(?::([0-5]\d))?\s*(am|pm)$/\<close>\<close>
  "twelveHourPattern =
     Seq Bol
    (Seq (Grp 1 (Rep is_digit 1 (Some 2)))
    (Seq (Opt (Seq (Chr CHR '':'') (Grp 2 (Seq (Cls (Rng CHR ''0'' CHR ''5'')) (Cls is_digit)))))
    (Seq (Rep is_space 0 None)
    (Seq (Grp 3 (Alt (Seq (Chr CHR ''a'') (Chr CHR ''m'')) (Seq (Chr CHR ''p'') (Chr CHR ''m''))))
         Eol))))"

definition invalid_time_format :: js_thrown where
  "invalid_time_format =
     JsError (''Invalid time format. Use 24h '' @ [CHR 0x22] @ ''HH:MM'' @ [CHR 0x22] @
              '' or 12h '' @ [CHR 0x22] @ ''H:MM am/pm'' @ [CHR 0x22] @ ''.'')"

text \<open>
  \<open>normalizeTime\<close> returns (\<open>Inr\<close>) or throws (\<open>Inl\<close>). The hour is what \<open>parseInt\<close> gives:
  were it \<open>NaN\<close>, no comparison with it would hold, no error would be thrown and the
  result would start with \<open>NaN\<close>; that branch is written out, and the 12-hour pattern
  never leads to it (lemma \<open>twelveHour_match\<close> below).
\<close>

definition normalizeTime :: "string \<Rightarrow> js_thrown + string" where
  "normalizeTime timeStr =
     (let trimmed = toLowerCase (trim timeStr) in
      case rx_match twentyFourHourPattern trimmed of
        Some twentyFourHourMatch \<Rightarrow>
          Inr (grp twentyFourHourMatch 1 @ '':'' @ grp twentyFourHourMatch 2)
      | None \<Rightarrow>
         (case rx_match twelveHourPattern trimmed of
            Some twelveHourMatch \<Rightarrow>
              (let hour = parseInt10 (grp twelveHourMatch 1);
                   minute = (case twelveHourMatch 2 of Some v \<Rightarrow> v | None \<Rightarrow> ''00'');
                   period = twelveHourMatch 3
               in case hour of
                    None \<Rightarrow> Inr (padStart 2 CHR ''0'' ''NaN'' @ '':'' @ minute)
                  | Some h \<Rightarrow>
                      if h < 1 \<or> h > 12 then Inl (JsError ''Invalid 12-hour time format.'')
                      else
                        let hour' = (if period = Some ''pm'' \<and> h \<noteq> 12 then h + 12
                                     else if period = Some ''am'' \<and> h = 12 then 0
                                     else h)
                        in Inr (padStart 2 CHR ''0'' (Number_toString hour') @ '':'' @ minute))
          | None \<Rightarrow> Inl invalid_time_format))"

section \<open>The store, the environment and the connection manager\<close>

type_synonym ObjectId = string

type_synonym handle = nat

text \<open>
  An event document as the store holds it (\<open>_id\<close> is \<open>doc_id\<close>, \<open>image\<close> is
  \<open>image_ref\<close>). An \<open>ObjectId\<close> is identified with its string form and a \<open>Date\<close>
  with its ISO string. \<open>slug\<close> and \<open>tags\<close> may be absent from a document.
\<close>

record EventDocument =
  doc_id :: ObjectId
  title :: string
  slug :: "string option"
  description :: string
  overview :: string
  image_ref :: string
  venue :: string
  location :: string
  date :: string
  time :: string
  mode :: string
  audience :: string
  agenda :: "string list"
  organizer :: string
  tags :: "string list option"
  createdAt :: string
  updatedAt :: string

datatype query =
    FindOne string                      \<comment> \<open>\<open>Event.findOne({ slug })\<close>\<close>
  | Find ObjectId "string list"         \<comment> \<open>\<open>Event.find({ _id: {$ne: id}, tags: {$in: ts} })\<close>\<close>
  | Exists ObjectId                     \<comment> \<open>\<open>Event.exists({ _id: id })\<close>\<close>

datatype access = Acquire | Query query

record MongooseCache =
  conn :: "handle option"
  promise :: "nat option"     \<comment> \<open>the cached promise, named by the number of its attempt\<close>

text \<open>
  The mutable state: the module's cache, and two records the source does not keep, for
  the statements about what a call touches: the number of calls of \<open>mongoose.connect\<close>
  made so far, and the calls of \<open>connectDB\<close> and the store operations made so far,
  oldest first.
\<close>

record world =
  cached :: MongooseCache
  connects :: nat
  accesses :: "access list"

text \<open>
  What a call cannot change: the process environment, how the promise of each
  connection attempt settles, the events collection, and which store operations reject.
  Every operation runs from its call to its return; what \<open>await\<close> waits for is read here.
\<close>

record env =
  MONGODB_URI :: "string option"
  NODE_ENV :: "string option"
  connect_outcome :: "nat \<Rightarrow> js_thrown + handle"
  events :: "EventDocument list"
  store_fault :: "query \<Rightarrow> js_thrown option"

definition await_promise :: "env \<Rightarrow> nat \<Rightarrow> world \<Rightarrow> (js_thrown + handle) \<times> world" where
  \<comment> \<open>the \<open>try { cached.conn = await cached.promise } catch\<close> of \<open>connectDB\<close>\<close>
  "await_promise env p w =
     (case connect_outcome env p of
        Inr h \<Rightarrow> (Inr h, w\<lparr>cached := (cached w)\<lparr>conn := Some h\<rparr>\<rparr>)
      | Inl e \<Rightarrow> (Inl e, w\<lparr>cached := (cached w)\<lparr>promise := None\<rparr>\<rparr>))"

definition connectDB :: "env \<Rightarrow> world \<Rightarrow> (js_thrown + handle) \<times> world" where
  "connectDB env w0 =
     (let w = w0\<lparr>accesses := accesses w0 @ [Acquire]\<rparr> in
      case conn (cached w) of
        Some h \<Rightarrow> (Inr h, w)
      | None \<Rightarrow>
         (case promise (cached w) of
            Some p \<Rightarrow> await_promise env p w
          | None \<Rightarrow>
             if MONGODB_URI env = None \<or> MONGODB_URI env = Some []
             then (Inl (JsError ''Please define the MONGODB_URI environment variable inside .env.local''), w)
             else await_promise env (connects w)
                    (w\<lparr>cached := (cached w)\<lparr>promise := Some (connects w)\<rparr>,
                       connects := Suc (connects w)\<rparr>)))"

definition run_query :: "env \<Rightarrow> query \<Rightarrow> 'a \<Rightarrow> world \<Rightarrow> (js_thrown + 'a) \<times> world" where
  \<comment> \<open>a store operation: it is recorded, and it rejects or resolves to its result\<close>
  "run_query env q result w =
     (let w' = w\<lparr>accesses := accesses w @ [Query q]\<rparr>
      in case store_fault env q of Some e \<Rightarrow> (Inl e, w') | None \<Rightarrow> (Inr result, w'))"

definition Event_findOne :: "env \<Rightarrow> string \<Rightarrow> world \<Rightarrow> (js_thrown + EventDocument option) \<times> world" where
  "Event_findOne env s w = run_query env (FindOne s) (find (\<lambda>e. slug e = Some s) (events env)) w"

definition in_match :: "string list option \<Rightarrow> string list \<Rightarrow> bool" where
  \<comment> \<open>\<open>{$in: vals}\<close> on an array field: some element of the field is one of \<open>vals\<close>\<close>
  "in_match field vals = (case field of None \<Rightarrow> False | Some xs \<Rightarrow> list_ex (\<lambda>x. x \<in> set vals) xs)"

definition Event_find :: "env \<Rightarrow> ObjectId \<Rightarrow> string list \<Rightarrow> world \<Rightarrow> (js_thrown + EventDocument list) \<times> world" where
  "Event_find env oid ts w =
     run_query env (Find oid ts) (filter (\<lambda>e. doc_id e \<noteq> oid \<and> in_match (tags e) ts) (events env)) w"

definition Event_exists :: "env \<Rightarrow> ObjectId \<Rightarrow> world \<Rightarrow> (js_thrown + bool) \<times> world" where
  "Event_exists env oid w = run_query env (Exists oid) (list_ex (\<lambda>e. doc_id e = oid) (events env)) w"

section \<open>The retrieval handler\<close>

datatype ErrorCode = MISSING_SLUG | INVALID_SLUG_FORMAT | EVENT_NOT_FOUND | INTERNAL_SERVER_ERROR

datatype body =
    ErrorResponse (message: string) (error: ErrorCode) (details: "string option")
  | SuccessResponse (message: string) (event: EventDocument)

record NextResponse =
  status :: nat
  json :: body

datatype SlugValidationResult = Ok string | NotOk nat ErrorCode string

definition slugPattern :: rx where
  \<comment> \<open>\<open>/^[a-z0-9-]+$/\<close>\<close>
  "slugPattern = Seq Bol (Seq (Rep (\<lambda>c. alnum c \<or> c = CHR ''-'') 1 None) Eol)"

definition validateSlug :: "string option \<Rightarrow> SlugValidationResult" where
  "validateSlug rawSlug =
     (case rawSlug of
        None \<Rightarrow> NotOk 400 MISSING_SLUG ''Slug parameter is required.''
      | Some raw \<Rightarrow>
          if raw = [] then NotOk 400 MISSING_SLUG ''Slug parameter is required.''
          else
            let slug' = toLowerCase (trim raw) in
            if slug' = [] then NotOk 400 INVALID_SLUG_FORMAT ''Slug parameter cannot be empty.''
            else if \<not> rx_test slugPattern slug'
            then NotOk 400 INVALID_SLUG_FORMAT
                   ''Slug may only contain lowercase letters, numbers, and hyphens.''
            else Ok slug')"

record request =
  params_slug :: "string option"     \<comment> \<open>\<open>context?.params?.slug\<close>\<close>
  query_slug :: "string option"      \<comment> \<open>\<open>req.nextUrl.searchParams.get('slug')\<close>\<close>
  pathname :: string                 \<comment> \<open>\<open>req.nextUrl.pathname\<close>\<close>

definition GET_rawSlug :: "request \<Rightarrow> string option" where
  \<comment> \<open>the first part of \<open>GET\<close>: the route parameter, then the query, then the path\<close>
  "GET_rawSlug req =
     (let slugFromParams = params_slug req;
          slugFromQuery = query_slug req;
          rawSlug = (case slugFromParams of Some s \<Rightarrow> Some s | None \<Rightarrow> slugFromQuery)
      in if rawSlug = None \<or> rawSlug = Some []
         then
           (let segments = filter (\<lambda>x. x \<noteq> []) (split_on CHR ''/'' (pathname req))
            in if segments = [] then rawSlug
               else let lastSegment = last segments
                    in if lastSegment \<noteq> [] \<and> lastSegment \<noteq> ''events'' then Some lastSegment
                       else rawSlug)
         else rawSlug)"

definition server_error :: "env \<Rightarrow> js_thrown \<Rightarrow> NextResponse" where
  \<comment> \<open>the \<open>catch\<close> block of \<open>GET\<close>\<close>
  "server_error env err =
     (let errorMessage = (case err of JsError m \<Rightarrow> m | JsNonError \<Rightarrow> ''An unexpected error occurred.'');
          details = (if NODE_ENV env = Some ''development'' then Some errorMessage else None)
      in \<lparr>status = 500, json = ErrorResponse ''Failed to fetch events.'' INTERNAL_SERVER_ERROR details\<rparr>)"

definition GET :: "env \<Rightarrow> request \<Rightarrow> world \<Rightarrow> NextResponse \<times> world" where
  "GET env req w =
     (case validateSlug (GET_rawSlug req) of
        NotOk st code msg \<Rightarrow> (\<lparr>status = st, json = ErrorResponse msg code None\<rparr>, w)
      | Ok slug' \<Rightarrow>
         (case connectDB env w of
            (Inl err, w1) \<Rightarrow> (server_error env err, w1)
          | (Inr _, w1) \<Rightarrow>
             (case Event_findOne env slug' w1 of
                (Inl err, w2) \<Rightarrow> (server_error env err, w2)
              | (Inr None, w2) \<Rightarrow>
                  (\<lparr>status = 404, json = ErrorResponse ''Event not found.'' EVENT_NOT_FOUND None\<rparr>, w2)
              | (Inr (Some ev), w2) \<Rightarrow>
                  (\<lparr>status = 200, json = SuccessResponse ''Event fetched successfully.'' ev\<rparr>, w2))))"

section \<open>The similarity query\<close>

text \<open>
  What \<open>getSimilarEventsBySlug\<close> returns for a document \<open>e\<close>: the fields of \<open>e\<close>
  (\<open>...e\<close>), with \<open>_id\<close>, \<open>createdAt\<close>, \<open>updatedAt\<close> and \<open>date\<close> replaced. \<open>date\<close> is a
  string in the store, a string has no \<open>toISOString\<close>, and so
  \<open>e.date?.toISOString?.()\<close> is \<open>undefined\<close>.
\<close>

record SimilarEvent =
  spread :: EventDocument
  id_string :: "string option"
  createdAt_iso :: "string option"
  updatedAt_iso :: "string option"
  date_iso :: "string option"

definition serialize :: "EventDocument \<Rightarrow> SimilarEvent" where
  "serialize e =
     \<lparr>spread = e, id_string = Some (doc_id e), createdAt_iso = Some (createdAt e),
      updatedAt_iso = Some (updatedAt e), date_iso = None\<rparr>"

definition tags_or_empty :: "EventDocument \<Rightarrow> string list" where
  \<comment> \<open>\<open>event.tags ?? []\<close>\<close>
  "tags_or_empty e = (case tags e of None \<Rightarrow> [] | Some ts \<Rightarrow> ts)"

definition getSimilarEventsBySlug_try :: "env \<Rightarrow> string \<Rightarrow> world \<Rightarrow> (js_thrown + SimilarEvent list) \<times> world" where
  \<comment> \<open>the \<open>try\<close> block\<close>
  "getSimilarEventsBySlug_try env s w =
     (case connectDB env w of
        (Inl err, w1) \<Rightarrow> (Inl err, w1)
      | (Inr _, w1) \<Rightarrow>
         (case Event_findOne env s w1 of
            (Inl err, w2) \<Rightarrow> (Inl err, w2)
          | (Inr None, w2) \<Rightarrow>
              (Inl (JsError ''Cannot read properties of null (reading '_id')''), w2)
          | (Inr (Some ev), w2) \<Rightarrow>
             (case Event_find env (doc_id ev) (tags_or_empty ev) w2 of
                (Inl err, w3) \<Rightarrow> (Inl err, w3)
              | (Inr similar, w3) \<Rightarrow> (Inr (map serialize similar), w3))))"

definition getSimilarEventsBySlug :: "env \<Rightarrow> string \<Rightarrow> world \<Rightarrow> (js_thrown + SimilarEvent list) \<times> world" where
  "getSimilarEventsBySlug env s w =
     (case getSimilarEventsBySlug_try env s w of
        (Inl _, w') \<Rightarrow> (Inr [], w')
      | (Inr r, w') \<Rightarrow> (Inr r, w'))"

section \<open>The booking validator\<close>

record BookingDocument =
  eventId :: "ObjectId option"
  email :: "string option"           \<comment> \<open>\<open>None\<close>: not a string\<close>
  isNew :: bool
  isModified_eventId :: bool         \<comment> \<open>\<open>doc.isModified('eventId')\<close>\<close>

definition EMAIL_REGEX :: rx where
  \<comment> \<open>\<open>/^[^\s@]+@[^\s@]+\.[^\s@]+$/\<close>\<close>
  "EMAIL_REGEX =
     Seq Bol
    (Seq (Rep (\<lambda>c. \<not> (is_space c \<or> c = CHR ''@'')) 1 None)
    (Seq (Chr CHR ''@'')
    (Seq (Rep (\<lambda>c. \<not> (is_space c \<or> c = CHR ''@'')) 1 None)
    (Seq (Chr CHR ''.'')
    (Seq (Rep (\<lambda>c. \<not> (is_space c \<or> c = CHR ''@'')) 1 None)
         Eol)))))"

text \<open>
  The \<open>pre('save')\<close> hook of the booking schema. The result is what it passes to
  \<open>next\<close> (\<open>None\<close>: the write goes on; an error: the write is rejected) and the document
  as the hook leaves it. The hook does not call \<open>connectDB\<close>.
\<close>

definition bookingSchema_pre_save ::
  "env \<Rightarrow> BookingDocument \<Rightarrow> world \<Rightarrow> (js_thrown option \<times> BookingDocument) \<times> world" where
  "bookingSchema_pre_save env doc w =
     (case email doc of
        None \<Rightarrow> ((Some (JsError ''Email is required and must be a non-empty string.''), doc), w)
      | Some e \<Rightarrow>
          if length (trim e) = 0
          then ((Some (JsError ''Email is required and must be a non-empty string.''), doc), w)
          else
            let normalizedEmail = toLowerCase (trim e) in
            if \<not> rx_test EMAIL_REGEX normalizedEmail
            then ((Some (JsError ''Email is not in a valid format.''), doc), w)
            else
              let doc' = doc\<lparr>email := Some normalizedEmail\<rparr> in
              if isNew doc' \<or> isModified_eventId doc'
              then
                (case eventId doc' of
                   None \<Rightarrow> ((Some (JsError ''eventId is required.''), doc'), w)
                 | Some oid \<Rightarrow>
                    (case Event_exists env oid w of
                       (Inl err, w1) \<Rightarrow>
                         ((Some (case err of
                                   JsError m \<Rightarrow> JsError m
                                 | JsNonError \<Rightarrow> JsError ''Failed to validate referenced event.''),
                           doc'), w1)
                     | (Inr existingEvent, w1) \<Rightarrow>
                         if \<not> existingEvent
                         then ((Some (JsError ''Referenced event does not exist.''), doc'), w1)
                         else ((None, doc'), w1)))
              else ((None, doc'), w))"

section \<open>Sample data\<close>

text \<open>Concrete values, for the instances of the theorems below.\<close>

definition fresh_world :: world where
  "fresh_world = \<lparr>cached = \<lparr>conn = None, promise = None\<rparr>, connects = 0, accesses = []\<rparr>"

definition sample_event :: "ObjectId \<Rightarrow> string \<Rightarrow> string list option \<Rightarrow> EventDocument" where
  "sample_event oid sl ts =
     \<lparr>doc_id = oid, title = ''My Event'', slug = Some sl, description = ''d'', overview = ''o'',
      image_ref = ''i.png'', venue = ''v'', location = ''l'', date = ''2025-01-01'',
      time = ''09:00'', mode = ''online'', audience = ''all'', agenda = [''talk''],
      organizer = ''org'', tags = ts, createdAt = ''2025-01-01T00:00:00.000Z'',
      updatedAt = ''2025-01-01T00:00:00.000Z''\<rparr>"

definition sample_events :: "EventDocument list" where
  "sample_events =
     [sample_event ''e1'' ''my-event'' (Some [''ai'', ''cloud'']),
      sample_event ''e2'' ''cloud-day'' (Some [''cloud'']),
      sample_event ''e3'' ''web-night'' (Some [''web'']),
      sample_event ''e4'' ''untagged'' None]"

definition sample_env :: "string option \<Rightarrow> (nat \<Rightarrow> js_thrown + handle) \<Rightarrow> (query \<Rightarrow> js_thrown option) \<Rightarrow> env" where
  "sample_env node_env outcome fault =
     \<lparr>MONGODB_URI = Some ''mongodb://localhost/dev'', NODE_ENV = node_env,
      connect_outcome = outcome, events = sample_events, store_fault = fault\<rparr>"

definition req_path :: "string \<Rightarrow> request" where
  \<comment> \<open>a request that carries its slug in the path only\<close>
  "req_path p = \<lparr>params_slug = None, query_slug = None, pathname = p\<rparr>"

definition req_param :: "string \<Rightarrow> string \<Rightarrow> request" where
  \<comment> \<open>a request on path \<open>p\<close> whose route parameter is \<open>s\<close>\<close>
  "req_param s p = \<lparr>params_slug = Some s, query_slug = None, pathname = p\<rparr>"

definition env_up :: env where
  \<comment> \<open>the connection comes up and the store answers\<close>
  "env_up = sample_env (Some ''test'') (\<lambda>n. Inr 1) (\<lambda>q. None)"

definition env_down :: "string option \<Rightarrow> env" where
  \<comment> \<open>every connection attempt is rejected\<close>
  "env_down node_env =
     sample_env node_env (\<lambda>n. Inl (JsError ''connect ECONNREFUSED'')) (\<lambda>q. None)"

definition env_faulty :: "(query \<Rightarrow> js_thrown option) \<Rightarrow> env" where
  \<comment> \<open>the connection comes up and the store rejects the operations that \<open>fault\<close> names\<close>
  "env_faulty fault = sample_env (Some ''test'') (\<lambda>n. Inr 1) fault"

definition booking :: "ObjectId \<Rightarrow> string \<Rightarrow> BookingDocument" where
  \<comment> \<open>a new booking\<close>
  "booking oid e = \<lparr>eventId = Some oid, email = Some e, isNew = True, isModified_eventId = False\<rparr>"

section \<open>Notions the statements and their proofs use\<close>

subsection \<open>The connection manager and the store\<close>

fun connectDB_times :: "nat \<Rightarrow> env \<Rightarrow> world \<Rightarrow> (js_thrown + handle) list \<times> world" where
  \<comment> \<open>\<open>n\<close> calls of \<open>connectDB\<close>, one after the other: their results and the last state\<close>
  "connectDB_times 0 env w = ([], w)"
| "connectDB_times (Suc n) env w =
     (case connectDB env w of
        (r, w1) \<Rightarrow> (case connectDB_times n env w1 of (rs, w2) \<Rightarrow> (r # rs, w2)))"

definition attempt_awaited :: "world \<Rightarrow> nat" where
  \<comment> \<open>the attempt whose promise a call awaits when no handle is cached: the cached
      promise's, or else the one the call starts\<close>
  "attempt_awaited w = (case promise (cached w) of Some p \<Rightarrow> p | None \<Rightarrow> connects w)"

definition uri_defined :: "env \<Rightarrow> bool" where
  "uri_defined env = (\<exists>u. MONGODB_URI env = Some u \<and> u \<noteq> [])"

definition tag_set :: "EventDocument \<Rightarrow> string set" where
  \<comment> \<open>the tags of a document, none when the field is absent\<close>
  "tag_set e = (case tags e of None \<Rightarrow> {} | Some ts \<Rightarrow> set ts)"

subsection \<open>Times\<close>

definition hhmm :: "string \<Rightarrow> bool" where
  \<comment> \<open>two digits from 00 to 23, a colon, two digits from 00 to 59\<close>
  "hhmm t =
     (case t of
        [h1, h2, c, m1, m2] \<Rightarrow>
          ((Rng CHR ''0'' CHR ''1'' h1 \<and> is_digit h2) \<or> (h1 = CHR ''2'' \<and> Rng CHR ''0'' CHR ''3'' h2)) \<and>
          c = CHR '':'' \<and> Rng CHR ''0'' CHR ''5'' m1 \<and> is_digit m2
      | _ \<Rightarrow> False)"

definition hh_ok :: "string \<Rightarrow> bool" where
  "hh_ok v =
     (case v of
        [h1, h2] \<Rightarrow> (Rng CHR ''0'' CHR ''1'' h1 \<and> is_digit h2) \<or> (h1 = CHR ''2'' \<and> Rng CHR ''0'' CHR ''3'' h2)
      | _ \<Rightarrow> False)"

definition mm_ok :: "string \<Rightarrow> bool" where
  "mm_ok v = (case v of [a, b] \<Rightarrow> Rng CHR ''0'' CHR ''5'' a \<and> is_digit b | _ \<Rightarrow> False)"

subsection \<open>Slugs\<close>

definition slug_output_pattern :: rx where
  \<comment> \<open>\<open>/^[a-z0-9]+(-[a-z0-9]+)*$/\<close>, the pattern the specification gives for a slug\<close>
  "slug_output_pattern =
     Seq Bol
    (Seq (Rep alnum 1 None)
    (Seq (Star (Grp 1 (Seq (Chr CHR ''-'') (Rep alnum 1 None))))
         Eol))"

definition strip_trailing :: "(char \<Rightarrow> bool) \<Rightarrow> string \<Rightarrow> string" where
  "strip_trailing p s = rev (dropWhile p (rev s))"

fun sep_ok :: "string \<Rightarrow> bool" where
  \<comment> \<open>only a-z, 0-9 and dashes, and after a dash the end or one of a-z, 0-9\<close>
  "sep_ok [] = True"
| "sep_ok (x # xs) = ((alnum x \<or> (x = CHR ''-'' \<and> (xs = [] \<or> alnum (hd xs)))) \<and> sep_ok xs)"

definition slug_shaped :: "string \<Rightarrow> bool" where
  \<comment> \<open>moreover no dash at either end\<close>
  "slug_shaped s = (sep_ok s \<and> (s = [] \<or> (alnum (hd s) \<and> alnum (last s))))"

section \<open>Evaluation\<close>

text \<open>
  The recursive equations of the matcher are no simplification rules. These collections
  are what evaluates the model on a concrete input.
\<close>

lemmas rx_eval = rx_search.simps replace_g.simps rxm.simps(9) Number_toString.simps

lemmas cls_defs = Rng_def is_space_def is_digit_def is_upper_def alnum_def Chr_def

lemmas str_defs = trim_def toLowerCase_def toLowerCase_char_def padStart_def parseInt10_def
  digit_val_def grp_def rx_match_def rx_test_def

lemmas sample_defs = fresh_world_def sample_event_def sample_events_def sample_env_def

lemmas store_defs = connectDB_def await_promise_def run_query_def Event_findOne_def
  Event_find_def Event_exists_def in_match_def

lemmas handler_defs = GET_def GET_rawSlug_def validateSlug_def slugPattern_def server_error_def
  req_path_def req_param_def env_up_def env_down_def

section \<open>Facts about the matcher\<close>

subsection \<open>Membership in the states a pattern reaches\<close>

lemma rxm_Seq_mem:
  "st' \<in> set (rxm (Seq a b) st) \<longleftrightarrow> (\<exists>st1 \<in> set (rxm a st). st' \<in> set (rxm b st1))"
  by auto

lemma rxm_Cls_mem:
  "st' \<in> set (rxm (Cls p) (i, s, c)) \<longleftrightarrow> (\<exists>x xs. s = x # xs \<and> p x \<and> st' = (Suc i, xs, c))"
  by (cases s) auto

lemma rxm_Cls2_mem:
  "st' \<in> set (rxm (Seq (Cls p) (Cls q)) (i, s, c)) \<longleftrightarrow>
     (\<exists>a b r. s = a # b # r \<and> p a \<and> q b \<and> st' = (Suc (Suc i), r, c))"
  unfolding rxm_Seq_mem by (auto simp: rxm_Cls_mem simp del: rxm.simps)

lemma rxm_Grp_mem:
  "st' \<in> set (rxm (Grp g a) (i, s, c)) \<longleftrightarrow>
     (\<exists>j s' c'. (j, s', c') \<in> set (rxm a (i, s, c)) \<and> st' = (j, s', c'(g \<mapsto> take (j - i) s)))"
  by (force simp: image_iff)

lemma rxm_Rep1_none:
  "s = [] \<or> \<not> p (hd s) \<Longrightarrow> rxm (Rep p 1 None) (i, s, c) = []"
  by (cases s) auto

lemma rxm_Rep1_some:
  assumes "p x"
  shows "rxm (Rep p 1 None) (i, x # xs, c) =
           (i + Suc (length (takeWhile p xs)), dropWhile p xs, c) #
           map (\<lambda>k. (i + k, drop k (x # xs), c)) (rev [1..<Suc (length (takeWhile p xs))])"
  using assms by (simp add: dropWhile_eq_drop)

lemma rxm_Rep1_mem:
  "(j, s', c') \<in> set (rxm (Rep p 1 None) (i, s, c)) \<Longrightarrow>
     \<exists>k. 1 \<le> k \<and> k \<le> length (takeWhile p s) \<and> j = i + k \<and> s' = drop k s \<and> c' = c"
  by (auto simp: Let_def simp del: upt_Suc)

lemma rxm_Star_stop: "(i, s, c) \<in> set (rxm (Star a) (i, s, c))"
  by (subst rxm.simps(9)) simp

lemma rxm_Star_step:
  assumes "(j1, s1, c1) \<in> set (rxm a (i, s, c))" and "length s1 < length s"
    and "st \<in> set (rxm (Star a) (j1, s1, c1))"
  shows "st \<in> set (rxm (Star a) (i, s, c))"
  using assms by (subst rxm.simps(9)) force

subsection \<open>Anchored patterns\<close>

lemma rx_search_Bol_later:
  "0 < i \<Longrightarrow> rx_search (Seq Bol r) i s = None"
proof (induction s arbitrary: i)
  case Nil
  then show ?case by (simp add: rx_search_Nil)
next
  case (Cons x xs)
  then show ?case by (simp add: rx_search_Nil)
qed

lemma rx_search_Bol:
  "rx_search (Seq Bol r) 0 s =
     (case rxm (Seq Bol r) (0, s, Map.empty) of [] \<Rightarrow> None | m # _ \<Rightarrow> Some (0, m))"
proof (cases "rxm (Seq Bol r) (0, s, Map.empty)")
  case Nil
  from rx_search_Nil[OF this] Nil show ?thesis
    by (cases s) (simp_all add: rx_search_Bol_later)
next
  case (Cons m ms)
  from rx_search_Cons[OF this] Cons show ?thesis by simp
qed

lemma rx_test_match: "rx_test r s \<longleftrightarrow> rx_match r s \<noteq> None"
  by (simp add: rx_test_def rx_match_def)

subsection \<open>One step of a global replacement\<close>

lemma replace_g_none:
  "rx_search r i s = None \<Longrightarrow> replace_g r rep i s = s"
  by (subst replace_g.simps) simp

lemma replace_g_hit:
  assumes "rxm r (i, s, Map.empty) = (k, s', c) # ms" and "i < k"
  shows "replace_g r rep i s = rep @ replace_g r rep k s'"
  using assms(2) by (subst replace_g.simps) (simp add: rx_search_Cons[OF assms(1)])

lemma replace_g_skip:
  assumes "rxm r (i, x # xs, Map.empty) = []"
  shows "replace_g r rep i (x # xs) = x # replace_g r rep (Suc i) xs"
proof -
  have s: "rx_search r i (x # xs) = rx_search r (Suc i) xs"
    using rx_search_Nil[OF assms] by simp
  show ?thesis
  proof (cases "rx_search r (Suc i) xs")
    case None
    with s show ?thesis by (simp add: replace_g_none)
  next
    case (Some m)
    obtain j k s' c where m: "m = (j, k, s', c)" by (cases m)
    from rx_search_position[OF Some[unfolded m]] have "Suc i \<le> j" by simp
    then have "j - i = Suc (j - Suc i)" by simp
    then have t: "take (j - i) (x # xs) = x # take (j - Suc i) xs"
      by simp
    show ?thesis
      by (subst replace_g.simps, subst (2) replace_g.simps) (simp add: s Some m t)
  qed
qed

subsection \<open>What the slug pattern and the address pattern accept\<close>

lemma rxm_Rep1_iff:
  "(j, s', c') \<in> set (rxm (Rep p 1 None) (i, s, c)) \<longleftrightarrow>
     (\<exists>k. 1 \<le> k \<and> k \<le> length (takeWhile p s) \<and> j = i + k \<and> s' = drop k s \<and> c' = c)"
  by (auto simp: Let_def simp del: upt_Suc)

lemma rxm_Rep1_prefix:
  "(j, s', c') \<in> set (rxm (Rep p 1 None) (i, s, c)) \<longleftrightarrow>
     (\<exists>a. a \<noteq> [] \<and> (\<forall>x \<in> set a. p x) \<and> s = a @ s' \<and> j = i + length a \<and> c' = c)"
proof
  assume "(j, s', c') \<in> set (rxm (Rep p 1 None) (i, s, c))"
  then obtain k where k: "1 \<le> k" "k \<le> length (takeWhile p s)" "j = i + k" "s' = drop k s" "c' = c"
    unfolding rxm_Rep1_iff by blast
  have le: "length (takeWhile p s) \<le> length s" by (rule length_takeWhile_le)
  have "take k s = take k (takeWhile p s)"
    using k(2) by (metis takeWhile_dropWhile_id take_append diff_is_0_eq' take_0 append_Nil2)
  then have "\<forall>x \<in> set (take k s). p x"
    by (auto dest: in_set_takeD set_takeWhileD)
  moreover have "take k s \<noteq> []" using k(1,2) le by auto
  moreover have "length (take k s) = k" using k(2) le by simp
  ultimately show "\<exists>a. a \<noteq> [] \<and> (\<forall>x \<in> set a. p x) \<and> s = a @ s' \<and> j = i + length a \<and> c' = c"
    using k by (intro exI[of _ "take k s"]) simp
next
  assume "\<exists>a. a \<noteq> [] \<and> (\<forall>x \<in> set a. p x) \<and> s = a @ s' \<and> j = i + length a \<and> c' = c"
  then obtain a where a: "a \<noteq> []" "\<forall>x \<in> set a. p x" "s = a @ s'" "j = i + length a" "c' = c"
    by blast
  from a(2,3) have "takeWhile p s = a @ takeWhile p s'" by (simp add: takeWhile_append2)
  then have "length a \<le> length (takeWhile p s)" by simp
  moreover from a(1) have "1 \<le> length a" by (cases a) auto
  ultimately show "(j, s', c') \<in> set (rxm (Rep p 1 None) (i, s, c))"
    unfolding rxm_Rep1_iff using a by (intro exI[of _ "length a"]) simp
qed

lemma rxm_Chr_mem:
  "st' \<in> set (rxm (Chr ch) (i, s, c)) \<longleftrightarrow> (\<exists>xs. s = ch # xs \<and> st' = (Suc i, xs, c))"
  unfolding Chr_def rxm_Cls_mem by auto

lemma rxm_Eol_mem:
  "st' \<in> set (rxm Eol (i, s, c)) \<longleftrightarrow> s = [] \<and> st' = (i, [], c)"
  by auto

lemma rx_test_Bol:
  "rx_test (Seq Bol r) s \<longleftrightarrow> (\<exists>st. st \<in> set (rxm r (0, s, Map.empty)))"
proof -
  have "rxm (Seq Bol r) (0, s, Map.empty) = rxm r (0, s, Map.empty)" by simp
  then show ?thesis
    unfolding rx_test_def rx_search_Bol
    by (cases "rxm r (0, s, Map.empty)") auto
qed

text \<open>What the slug pattern accepts: the strings, not empty, of a-z, 0-9 and dashes.\<close>

lemma slugPattern_iff:
  "rx_test slugPattern s \<longleftrightarrow> s \<noteq> [] \<and> (\<forall>c \<in> set s. alnum c \<or> c = CHR ''-'')"
  (is "?l \<longleftrightarrow> ?r")
proof
  let ?p = "\<lambda>c. alnum c \<or> c = CHR ''-''"
  assume ?l
  then obtain st1 st2 where
    1: "st1 \<in> set (rxm (Rep ?p 1 None) (0, s, Map.empty))" and
    2: "st2 \<in> set (rxm Eol st1)"
    unfolding slugPattern_def rx_test_Bol rxm_Seq_mem by blast
  obtain i1 s1 c1 where st1: "st1 = (i1, s1, c1)" by (cases st1)
  from 1 obtain a where a: "a \<noteq> []" "\<forall>x \<in> set a. ?p x" "s = a @ s1"
    unfolding st1 rxm_Rep1_prefix by blast
  from 2 have "s1 = []" unfolding st1 rxm_Eol_mem by blast
  with a show ?r by simp
next
  let ?p = "\<lambda>c. alnum c \<or> c = CHR ''-''"
  assume r: ?r
  have 1: "(length s, [], Map.empty) \<in> set (rxm (Rep ?p 1 None) (0, s, Map.empty))"
    unfolding rxm_Rep1_prefix using r by (intro exI[of _ s]) simp
  have 2: "(length s, [], Map.empty) \<in> set (rxm Eol (length s, [], Map.empty))"
    unfolding rxm_Eol_mem by simp
  from 1 2 show ?l
    unfolding slugPattern_def rx_test_Bol rxm_Seq_mem by blast
qed

text \<open>
  What the address pattern accepts: a local part, \<open>@\<close>, and a domain with a dot inside
  it, none of the three parts empty, and no blank and no other \<open>@\<close> anywhere.
\<close>

lemma EMAIL_REGEX_iff:
  "rx_test EMAIL_REGEX s \<longleftrightarrow>
     (\<exists>a b d. s = a @ ''@'' @ b @ ''.'' @ d \<and> a \<noteq> [] \<and> b \<noteq> [] \<and> d \<noteq> [] \<and>
        (\<forall>x \<in> set (a @ b @ d). \<not> is_space x \<and> x \<noteq> CHR ''@''))"
  (is "?l \<longleftrightarrow> ?r")
proof
  let ?p = "\<lambda>c. \<not> (is_space c \<or> c = CHR ''@'')"
  assume ?l
  then obtain st1 st2 st3 st4 st5 st6 where
    1: "st1 \<in> set (rxm (Rep ?p 1 None) (0, s, Map.empty))" and
    2: "st2 \<in> set (rxm (Chr CHR ''@'') st1)" and
    3: "st3 \<in> set (rxm (Rep ?p 1 None) st2)" and
    4: "st4 \<in> set (rxm (Chr CHR ''.'') st3)" and
    5: "st5 \<in> set (rxm (Rep ?p 1 None) st4)" and
    6: "st6 \<in> set (rxm Eol st5)"
    unfolding EMAIL_REGEX_def rx_test_Bol rxm_Seq_mem by blast
  obtain i1 s1 c1 where st1: "st1 = (i1, s1, c1)" by (cases st1)
  obtain i2 s2 c2 where st2: "st2 = (i2, s2, c2)" by (cases st2)
  obtain i3 s3 c3 where st3: "st3 = (i3, s3, c3)" by (cases st3)
  obtain i4 s4 c4 where st4: "st4 = (i4, s4, c4)" by (cases st4)
  obtain i5 s5 c5 where st5: "st5 = (i5, s5, c5)" by (cases st5)
  from 1 obtain a where a: "a \<noteq> []" "\<forall>x \<in> set a. ?p x" "s = a @ s1"
    unfolding st1 rxm_Rep1_prefix by blast
  from 2 have s1: "s1 = CHR ''@'' # s2" unfolding st1 st2 rxm_Chr_mem by blast
  from 3 obtain b where b: "b \<noteq> []" "\<forall>x \<in> set b. ?p x" "s2 = b @ s3"
    unfolding st2 st3 rxm_Rep1_prefix by blast
  from 4 have s3: "s3 = CHR ''.'' # s4" unfolding st3 st4 rxm_Chr_mem by blast
  from 5 obtain d where d: "d \<noteq> []" "\<forall>x \<in> set d. ?p x" "s4 = d @ s5"
    unfolding st4 st5 rxm_Rep1_prefix by blast
  from 6 have s5: "s5 = []" unfolding st5 rxm_Eol_mem by blast
  have s: "s = a @ ''@'' @ b @ ''.'' @ d" by (simp add: a(3) s1 b(3) s3 d(3) s5)
  have "\<forall>x \<in> set (a @ b @ d). \<not> is_space x \<and> x \<noteq> CHR ''@''"
    using a(2) b(2) d(2) by auto
  with s a(1) b(1) d(1) show ?r by blast
next
  let ?p = "\<lambda>c. \<not> (is_space c \<or> c = CHR ''@'')"
  assume ?r
  then obtain a b d where s: "s = a @ ''@'' @ b @ ''.'' @ d"
    and ne: "a \<noteq> []" "b \<noteq> []" "d \<noteq> []"
    and p: "\<forall>x \<in> set a. ?p x" "\<forall>x \<in> set b. ?p x" "\<forall>x \<in> set d. ?p x"
    by auto
  define i1 where "i1 = length a"
  define i3 where "i3 = Suc i1 + length b"
  define i5 where "i5 = Suc i3 + length d"
  have 1: "(i1, ''@'' @ b @ ''.'' @ d, Map.empty) \<in> set (rxm (Rep ?p 1 None) (0, s, Map.empty))"
    unfolding rxm_Rep1_prefix using ne p s by (intro exI[of _ a]) (simp add: i1_def)
  have 2: "(Suc i1, b @ ''.'' @ d, Map.empty) \<in>
      set (rxm (Chr CHR ''@'') (i1, ''@'' @ b @ ''.'' @ d, Map.empty))"
    unfolding rxm_Chr_mem by simp
  have 3: "(i3, ''.'' @ d, Map.empty) \<in> set (rxm (Rep ?p 1 None) (Suc i1, b @ ''.'' @ d, Map.empty))"
    unfolding rxm_Rep1_prefix using ne p by (intro exI[of _ b]) (simp add: i3_def)
  have 4: "(Suc i3, d, Map.empty) \<in> set (rxm (Chr CHR ''.'') (i3, ''.'' @ d, Map.empty))"
    unfolding rxm_Chr_mem by simp
  have 5: "(i5, [], Map.empty) \<in> set (rxm (Rep ?p 1 None) (Suc i3, d, Map.empty))"
    unfolding rxm_Rep1_prefix using ne p by (intro exI[of _ d]) (simp add: i5_def)
  have 6: "(i5, [], Map.empty) \<in> set (rxm Eol (i5, [], Map.empty))"
    unfolding rxm_Eol_mem by simp
  from 1 2 3 4 5 6 show ?l
    unfolding EMAIL_REGEX_def rx_test_Bol rxm_Seq_mem by blast
qed

section \<open>Facts about the retrieval handler\<close>

lemma validateSlug_Ok_iff:
  "validateSlug r = Ok s \<longleftrightarrow>
     (\<exists>raw. r = Some raw \<and> s = toLowerCase (trim raw) \<and> s \<noteq> [] \<and> rx_test slugPattern s)"
  by (auto simp: validateSlug_def Let_def toLowerCase_def trim_def split: option.splits)

lemma validateSlug_missing:
  "r = None \<or> r = Some [] \<Longrightarrow> validateSlug r = NotOk 400 MISSING_SLUG ''Slug parameter is required.''"
  by (auto simp: validateSlug_def)

lemma validateSlug_invalid:
  "raw \<noteq> [] \<Longrightarrow> toLowerCase (trim raw) = [] \<or> \<not> rx_test slugPattern (toLowerCase (trim raw)) \<Longrightarrow>
     \<exists>msg. validateSlug (Some raw) = NotOk 400 INVALID_SLUG_FORMAT msg"
  by (auto simp: validateSlug_def Let_def)

lemma GET_not_ok:
  "validateSlug (GET_rawSlug req) = NotOk st code msg \<Longrightarrow>
     GET env req w = (\<lparr>status = st, json = ErrorResponse msg code None\<rparr>, w)"
  by (simp add: GET_def)

lemma GET_connect_fails:
  "validateSlug (GET_rawSlug req) = Ok s \<Longrightarrow> fst (connectDB env w) = Inl err \<Longrightarrow>
     fst (GET env req w) = server_error env err"
  by (cases "connectDB env w") (simp add: GET_def)

lemma GET_connected:
  "validateSlug (GET_rawSlug req) = Ok s \<Longrightarrow> fst (connectDB env w) = Inr h \<Longrightarrow>
     fst (GET env req w) =
       (case store_fault env (FindOne s) of
          Some err \<Rightarrow> server_error env err
        | None \<Rightarrow>
           (case find (\<lambda>e. slug e = Some s) (events env) of
              None \<Rightarrow> \<lparr>status = 404, json = ErrorResponse ''Event not found.'' EVENT_NOT_FOUND None\<rparr>
            | Some ev \<Rightarrow> \<lparr>status = 200, json = SuccessResponse ''Event fetched successfully.'' ev\<rparr>))"
  by (cases "connectDB env w")
     (simp add: GET_def Event_findOne_def run_query_def Let_def split: option.splits)

section \<open>C1: the time normalizer on the test vectors\<close>

text \<open>
  C1 (as amended). The time normalizer on the test vectors: \<open>normalizeTime("1pm")\<close> is
  \<open>"13:00"\<close>, \<open>normalizeTime("12am")\<close> is \<open>"00:00"\<close>, \<open>normalizeTime("12pm")\<close> is
  \<open>"12:00"\<close>, and \<open>normalizeTime("13pm")\<close> fails with the 12-hour format error. The
  24-hour form is strict: \<open>normalizeTime("9:05")\<close> fails with the format error, and it is
  \<open>normalizeTime("09:05")\<close> that returns \<open>"09:05"\<close>.
\<close>

theorem normalizeTime_vectors:
  "normalizeTime ''1pm'' = Inr ''13:00'' \<and>
   normalizeTime ''12am'' = Inr ''00:00'' \<and>
   normalizeTime ''12pm'' = Inr ''12:00'' \<and>
   normalizeTime ''9:05'' = Inl invalid_time_format \<and>
   normalizeTime ''09:05'' = Inr ''09:05'' \<and>
   normalizeTime ''13pm'' = Inl (JsError ''Invalid 12-hour time format.'')"
proof -
  note defs = normalizeTime_def twentyFourHourPattern_def twelveHourPattern_def
    str_defs cls_defs rx_eval
  have "normalizeTime ''1pm'' = Inr ''13:00''" by (simp add: defs cong: prod.case_cong_weak)
  moreover have "normalizeTime ''12am'' = Inr ''00:00''" by (simp add: defs cong: prod.case_cong_weak)
  moreover have "normalizeTime ''12pm'' = Inr ''12:00''" by (simp add: defs cong: prod.case_cong_weak)
  moreover have "normalizeTime ''9:05'' = Inl invalid_time_format" by (simp add: defs cong: prod.case_cong_weak)
  moreover have "normalizeTime ''09:05'' = Inr ''09:05''" by (simp add: defs cong: prod.case_cong_weak)
  moreover have "normalizeTime ''13pm'' = Inl (JsError ''Invalid 12-hour time format.'')"
    by (simp add: defs cong: prod.case_cong_weak)
  ultimately show ?thesis by blast
qed

text \<open>An instance of the theorem above.\<close>

theorem normalizeTime_vectors_witness:
  "normalizeTime ''1pm'' = Inr ''13:00'' \<and> normalizeTime ''9:05'' = Inl invalid_time_format"
  using normalizeTime_vectors by blast

text \<open>
  C1 as stated has \<open>normalizeTime("9:05")\<close> return \<open>"09:05"\<close>; the call fails: neither
  pattern accepts an hour of one digit without \<open>am\<close> or \<open>pm\<close>.
\<close>

theorem normalizeTime_9_05_counterexample:
  "normalizeTime ''9:05'' \<noteq> Inr ''09:05''"
  by (simp add: normalizeTime_def twentyFourHourPattern_def twelveHourPattern_def
      str_defs cls_defs rx_eval cong: prod.case_cong_weak)

section \<open>C2: the outcomes of the retrieval handler\<close>

text \<open>
  C2 (as amended). For every request to the retrieval endpoint, with the raw slug taken
  from the route parameter, the query or the path: a raw slug that is absent or the empty
  string gives status 400 with \<open>MISSING_SLUG\<close>; a raw slug that is not empty but is empty
  after trimming and lowercasing, or fails \<open>/^[a-z0-9-]+$/\<close> then, gives 400 with
  \<open>INVALID_SLUG_FORMAT\<close>; and for a valid slug, when the connection is acquired and the
  lookup does not fault, no stored event with that normalized slug gives 404 with
  \<open>EVENT_NOT_FOUND\<close>, and a stored event with it gives 200 with a message and the first
  such event.
\<close>

theorem GET_outcomes:
  "(GET_rawSlug req = None \<or> GET_rawSlug req = Some [] \<longrightarrow>
      status (fst (GET env req w)) = 400 \<and> error (json (fst (GET env req w))) = MISSING_SLUG) \<and>
   (\<forall>raw. GET_rawSlug req = Some raw \<and> raw \<noteq> [] \<and>
          (toLowerCase (trim raw) = [] \<or> \<not> rx_test slugPattern (toLowerCase (trim raw))) \<longrightarrow>
      status (fst (GET env req w)) = 400 \<and>
      error (json (fst (GET env req w))) = INVALID_SLUG_FORMAT) \<and>
   (\<forall>raw h. GET_rawSlug req = Some raw \<and> toLowerCase (trim raw) \<noteq> [] \<and>
          rx_test slugPattern (toLowerCase (trim raw)) \<and>
          fst (connectDB env w) = Inr h \<and>
          store_fault env (FindOne (toLowerCase (trim raw))) = None \<longrightarrow>
      ((\<forall>e \<in> set (events env). slug e \<noteq> Some (toLowerCase (trim raw))) \<longrightarrow>
         fst (GET env req w) =
           \<lparr>status = 404, json = ErrorResponse ''Event not found.'' EVENT_NOT_FOUND None\<rparr>) \<and>
      (\<forall>ev. find (\<lambda>e. slug e = Some (toLowerCase (trim raw))) (events env) = Some ev \<longrightarrow>
         ev \<in> set (events env) \<and> slug ev = Some (toLowerCase (trim raw)) \<and>
         fst (GET env req w) =
           \<lparr>status = 200, json = SuccessResponse ''Event fetched successfully.'' ev\<rparr>))"
proof (intro conjI allI impI)
  assume "GET_rawSlug req = None \<or> GET_rawSlug req = Some []"
  from GET_not_ok[OF validateSlug_missing[OF this]]
  show "status (fst (GET env req w)) = 400" and "error (json (fst (GET env req w))) = MISSING_SLUG"
    by simp_all
next
  fix raw
  assume a: "GET_rawSlug req = Some raw \<and> raw \<noteq> [] \<and>
          (toLowerCase (trim raw) = [] \<or> \<not> rx_test slugPattern (toLowerCase (trim raw)))"
  with validateSlug_invalid[of raw] obtain msg where
    "validateSlug (GET_rawSlug req) = NotOk 400 INVALID_SLUG_FORMAT msg" by auto
  from GET_not_ok[OF this]
  show "status (fst (GET env req w)) = 400"
    and "error (json (fst (GET env req w))) = INVALID_SLUG_FORMAT"
    by simp_all
next
  fix raw h
  assume a: "GET_rawSlug req = Some raw \<and> toLowerCase (trim raw) \<noteq> [] \<and>
          rx_test slugPattern (toLowerCase (trim raw)) \<and>
          fst (connectDB env w) = Inr h \<and>
          store_fault env (FindOne (toLowerCase (trim raw))) = None"
  then have ok: "validateSlug (GET_rawSlug req) = Ok (toLowerCase (trim raw))"
    by (simp add: validateSlug_Ok_iff)
  note g = GET_connected[OF ok, of env w h]
  {
    assume "\<forall>e \<in> set (events env). slug e \<noteq> Some (toLowerCase (trim raw))"
    then have "find (\<lambda>e. slug e = Some (toLowerCase (trim raw))) (events env) = None"
      by (simp add: find_None_iff)
    with g a show "fst (GET env req w) =
        \<lparr>status = 404, json = ErrorResponse ''Event not found.'' EVENT_NOT_FOUND None\<rparr>"
      by simp
  }
  fix ev
  assume f: "find (\<lambda>e. slug e = Some (toLowerCase (trim raw))) (events env) = Some ev"
  then show "ev \<in> set (events env)" and "slug ev = Some (toLowerCase (trim raw))"
    by (auto simp: find_Some_iff)
  from g a f show "fst (GET env req w) =
      \<lparr>status = 200, json = SuccessResponse ''Event fetched successfully.'' ev\<rparr>"
    by simp
qed

text \<open>
  Four requests, one for each outcome: no slug, the route parameter \<open>My Event!\<close>, a slug
  that no event has, and \<open>My-Event\<close>, which finds the event stored under \<open>my-event\<close>.
\<close>

theorem GET_outcomes_witness:
  "status (fst (GET env_up (req_path ''/api/events'') fresh_world)) = 400 \<and>
   error (json (fst (GET env_up (req_path ''/api/events'') fresh_world))) = MISSING_SLUG \<and>
   status (fst (GET env_up (req_param ''My Event!'' ''/api/events/My%20Event!'') fresh_world)) = 400 \<and>
   error (json (fst (GET env_up (req_param ''My Event!'' ''/api/events/My%20Event!'') fresh_world))) = INVALID_SLUG_FORMAT \<and>
   fst (GET env_up (req_path ''/api/events/no-such-event'') fresh_world) =
     \<lparr>status = 404, json = ErrorResponse ''Event not found.'' EVENT_NOT_FOUND None\<rparr> \<and>
   fst (GET env_up (req_path ''/api/events/My-Event'') fresh_world) =
     \<lparr>status = 200, json = SuccessResponse ''Event fetched successfully.''
                         (sample_event ''e1'' ''my-event'' (Some [''ai'', ''cloud'']))\<rparr>"
proof -
  have c: "fst (connectDB env_up fresh_world) = Inr 1"
    by (simp add: handler_defs sample_defs store_defs)
  have nofault: "\<And>q. store_fault env_up q = None"
    by (simp add: env_up_def sample_env_def)
  have r1: "GET_rawSlug (req_path ''/api/events'') = None"
    by (simp add: handler_defs)
  have r2: "GET_rawSlug (req_param ''My Event!'' ''/api/events/My%20Event!'') = Some ''My Event!''"
    by (simp add: handler_defs)
  have n2: "toLowerCase (trim ''My Event!'') = ''my event!''"
    by (simp add: str_defs cls_defs)
  have p2: "\<not> rx_test slugPattern ''my event!''"
    by (simp add: slugPattern_def str_defs cls_defs rx_eval)
  have r3: "GET_rawSlug (req_path ''/api/events/no-such-event'') = Some ''no-such-event''"
    by (simp add: handler_defs)
  have n3: "toLowerCase (trim ''no-such-event'') = ''no-such-event''"
    by (simp add: str_defs cls_defs)
  have p3: "rx_test slugPattern ''no-such-event''"
    by (simp add: slugPattern_def str_defs cls_defs rx_eval)
  have f3: "\<forall>e \<in> set (events env_up). slug e \<noteq> Some ''no-such-event''"
    by (simp add: handler_defs sample_defs)
  have r4: "GET_rawSlug (req_path ''/api/events/My-Event'') = Some ''My-Event''"
    by (simp add: handler_defs)
  have n4: "toLowerCase (trim ''My-Event'') = ''my-event''"
    by (simp add: str_defs cls_defs)
  have p4: "rx_test slugPattern ''my-event''"
    by (simp add: slugPattern_def str_defs cls_defs rx_eval)
  have f4: "find (\<lambda>e. slug e = Some ''my-event'') (events env_up) =
      Some (sample_event ''e1'' ''my-event'' (Some [''ai'', ''cloud'']))"
    by (simp add: handler_defs sample_defs)
  from GET_outcomes[of "req_path ''/api/events''" env_up fresh_world] r1
  have a1: "status (fst (GET env_up (req_path ''/api/events'') fresh_world)) = 400 \<and>
      error (json (fst (GET env_up (req_path ''/api/events'') fresh_world))) = MISSING_SLUG"
    by simp
  from GET_outcomes[of "req_param ''My Event!'' ''/api/events/My%20Event!''" env_up fresh_world] r2 n2 p2
  have a2: "status (fst (GET env_up (req_param ''My Event!'' ''/api/events/My%20Event!'') fresh_world)) = 400 \<and>
      error (json (fst (GET env_up (req_param ''My Event!'' ''/api/events/My%20Event!'') fresh_world))) = INVALID_SLUG_FORMAT"
    by simp
  from GET_outcomes[of "req_path ''/api/events/no-such-event''" env_up fresh_world] r3 n3 p3 f3 c nofault
  have a3: "fst (GET env_up (req_path ''/api/events/no-such-event'') fresh_world) =
     \<lparr>status = 404, json = ErrorResponse ''Event not found.'' EVENT_NOT_FOUND None\<rparr>"
    by simp
  from GET_outcomes[of "req_path ''/api/events/My-Event''" env_up fresh_world] r4 n4 p4 f4 c nofault
  have a4: "fst (GET env_up (req_path ''/api/events/My-Event'') fresh_world) =
     \<lparr>status = 200, json = SuccessResponse ''Event fetched successfully.''
                         (sample_event ''e1'' ''my-event'' (Some [''ai'', ''cloud'']))\<rparr>"
    by simp
  from a1 a2 a3 a4 show ?thesis by blast
qed

text \<open>
  C2 as stated gives \<open>INVALID_SLUG_FORMAT\<close> to every slug that is empty after trimming
  and lowercasing. The request \<open>/api/events?slug=\<close> has the empty string as its slug, and
  the answer is \<open>MISSING_SLUG\<close>: \<open>validateSlug\<close> tests \<open>!rawSlug\<close> first.
\<close>

theorem GET_empty_slug_counterexample:
  "GET_rawSlug \<lparr>params_slug = None, query_slug = Some [], pathname = ''/api/events''\<rparr> = Some [] \<and>
   toLowerCase (trim []) = [] \<and>
   error (json (fst (GET env_up \<lparr>params_slug = None, query_slug = Some [], pathname = ''/api/events''\<rparr>
                         fresh_world))) = MISSING_SLUG \<and>
   error (json (fst (GET env_up \<lparr>params_slug = None, query_slug = Some [], pathname = ''/api/events''\<rparr>
                         fresh_world))) \<noteq> INVALID_SLUG_FORMAT"
  by (simp add: handler_defs str_defs)

section \<open>C3: the slug normalizer, its pattern and its idempotence\<close>

subsection \<open>The first replacement: runs outside a-z and 0-9\<close>

lemma collapse_nil: "replace_g (Rep p 1 None) rep i [] = []"
  by (rule replace_g_none) (simp add: rx_search_Nil)

lemma collapse_keep:
  "\<not> p x \<Longrightarrow> replace_g (Rep p 1 None) rep i (x # xs) = x # replace_g (Rep p 1 None) rep (Suc i) xs"
  by (rule replace_g_skip) (simp add: rxm_Rep1_none)

lemma collapse_run:
  "p x \<Longrightarrow> replace_g (Rep p 1 None) rep i (x # xs) =
     rep @ replace_g (Rep p 1 None) rep (i + Suc (length (takeWhile p xs))) (dropWhile p xs)"
  by (rule replace_g_hit[OF rxm_Rep1_some]) simp_all

subsection \<open>The second replacement: dashes at both ends\<close>

lemma strip_trailing_Cons:
  "strip_trailing p (x # xs) = (if p x \<and> dropWhile p xs = [] then [] else x # strip_trailing p xs)"
  by (auto simp: strip_trailing_def dropWhile_append dropWhile_eq_Nil_conv)

lemma rxm_ends_none:
  "s = [] \<or> \<not> p (hd s) \<Longrightarrow>
     rxm (Alt (Seq Bol (Rep p 1 None)) (Seq (Rep p 1 None) Eol)) (i, s, c) = []"
  by (auto simp del: rxm.simps(7) One_nat_def simp: rxm_Rep1_none)

lemma rxm_ends_start:
  "p x \<Longrightarrow> \<exists>ms. rxm (Alt (Seq Bol (Rep p 1 None)) (Seq (Rep p 1 None) Eol)) (0, x # xs, c) =
     (Suc (length (takeWhile p xs)), dropWhile p xs, c) # ms"
  by (simp del: rxm.simps(7) One_nat_def add: rxm_Rep1_some)

lemma rxm_ends_all:
  "0 < i \<Longrightarrow> p x \<Longrightarrow> dropWhile p xs = [] \<Longrightarrow>
     \<exists>ms. rxm (Alt (Seq Bol (Rep p 1 None)) (Seq (Rep p 1 None) Eol)) (i, x # xs, c) =
       (i + Suc (length (takeWhile p xs)), [], c) # ms"
  by (simp del: rxm.simps(7) One_nat_def add: rxm_Rep1_some)

lemma rxm_ends_inner:
  assumes "0 < i" and "dropWhile p xs \<noteq> []"
  shows "rxm (Alt (Seq Bol (Rep p 1 None)) (Seq (Rep p 1 None) Eol)) (i, x # xs, c) = []"
proof -
  have "rxm (Seq (Rep p 1 None) Eol) (i, x # xs, c) = []"
  proof (cases "rxm (Seq (Rep p 1 None) Eol) (i, x # xs, c)")
    case Nil
    then show ?thesis .
  next
    case (Cons st sts)
    then have "st \<in> set (rxm (Seq (Rep p 1 None) Eol) (i, x # xs, c))" by simp
    then obtain st1 where a: "st1 \<in> set (rxm (Rep p 1 None) (i, x # xs, c))"
      and b: "st \<in> set (rxm Eol st1)"
      unfolding rxm_Seq_mem by blast
    obtain j s' c' where st1: "st1 = (j, s', c')" by (cases st1)
    from b st1 have "s' = []" by (auto split: if_splits)
    with rxm_Rep1_mem[OF a[unfolded st1]]
    obtain k where "k \<le> length (takeWhile p (x # xs))" and "drop k (x # xs) = []"
      by auto
    then have "length (x # xs) \<le> length (takeWhile p (x # xs))" by simp
    moreover have "length (takeWhile p (x # xs)) \<le> length (x # xs)" by (rule length_takeWhile_le)
    ultimately have "length (takeWhile p (x # xs)) = length (x # xs)" by simp
    then have "takeWhile p (x # xs) = x # xs"
      by (metis takeWhile_dropWhile_id append_eq_conv_conj take_all order_refl)
    then have "dropWhile p (x # xs) = []"
      by (metis takeWhile_dropWhile_id self_append_conv)
    with assms(2) have False by (auto split: if_splits)
    then show ?thesis ..
  qed
  with assms(1) show ?thesis
    unfolding rxm.simps(5) rxm.simps(4)[of Bol] by simp
qed

lemma strip_ends_later:
  "0 < i \<Longrightarrow>
     replace_g (Alt (Seq Bol (Rep p 1 None)) (Seq (Rep p 1 None) Eol)) [] i s = strip_trailing p s"
proof (induction s arbitrary: i)
  case Nil
  show ?case
    by (simp add: replace_g_none rx_search_Nil rxm_ends_none strip_trailing_def del: One_nat_def)
next
  case (Cons x xs)
  let ?R = "Alt (Seq Bol (Rep p 1 None)) (Seq (Rep p 1 None) Eol)"
  show ?case
  proof (cases "p x \<and> dropWhile p xs = []")
    case True
    with rxm_ends_all[OF Cons.prems, of p x xs Map.empty] obtain ms where
      "rxm ?R (i, x # xs, Map.empty) = (i + Suc (length (takeWhile p xs)), [], Map.empty) # ms"
      by blast
    from replace_g_hit[OF this, of "[]"] have "replace_g ?R [] i (x # xs) =
        replace_g ?R [] (i + Suc (length (takeWhile p xs))) []"
      by simp
    also have "\<dots> = []"
      by (simp add: replace_g_none rx_search_Nil rxm_ends_none del: One_nat_def)
    finally show ?thesis using True by (simp add: strip_trailing_Cons del: One_nat_def)
  next
    case False
    have "rxm ?R (i, x # xs, Map.empty) = []"
    proof (cases "p x")
      case True
      with False have "dropWhile p xs \<noteq> []" by simp
      with Cons.prems show ?thesis by (rule rxm_ends_inner)
    next
      case False
      then show ?thesis by (simp add: rxm_ends_none)
    qed
    from replace_g_skip[OF this] Cons.IH[of "Suc i"] False
    show ?thesis by (simp add: strip_trailing_Cons del: One_nat_def)
  qed
qed

lemma strip_ends:
  "replace_g (Alt (Seq Bol (Rep p 1 None)) (Seq (Rep p 1 None) Eol)) [] 0 s =
     strip_trailing p (dropWhile p s)"
proof (cases s)
  case Nil
  then show ?thesis
    by (simp add: replace_g_none rx_search_Nil rxm_ends_none strip_trailing_def del: One_nat_def)
next
  case (Cons x xs)
  let ?R = "Alt (Seq Bol (Rep p 1 None)) (Seq (Rep p 1 None) Eol)"
  show ?thesis
  proof (cases "p x")
    case True
    with rxm_ends_start[of p x xs Map.empty] obtain ms where
      "rxm ?R (0, x # xs, Map.empty) = (Suc (length (takeWhile p xs)), dropWhile p xs, Map.empty) # ms"
      by blast
    from replace_g_hit[OF this, of "[]"] True Cons show ?thesis
      by (simp add: strip_ends_later del: One_nat_def)
  next
    case False
    then have "rxm ?R (0, x # xs, Map.empty) = []" by (simp add: rxm_ends_none)
    from replace_g_skip[OF this] False Cons show ?thesis
      by (simp add: strip_ends_later strip_trailing_Cons del: One_nat_def)
  qed
qed

lemma generateSlug_eq:
  "generateSlug t =
     strip_trailing (\<lambda>c. c = CHR ''-'')
       (dropWhile (\<lambda>c. c = CHR ''-'')
         (replace_g (Rep (\<lambda>c. \<not> alnum c) 1 None) ''-'' 0 (trim (toLowerCase t))))"
  by (simp add: generateSlug_def strip_ends del: One_nat_def)

subsection \<open>The shape of a slug\<close>

lemma alnum_not_dash: "alnum c \<Longrightarrow> c \<noteq> CHR ''-''"
  by (auto simp: alnum_def Rng_def)

lemma dash_not_alnum [simp]: "\<not> alnum CHR ''-''"
  by (simp add: alnum_def Rng_def)

lemma sep_ok_suffix: "sep_ok (xs @ ys) \<Longrightarrow> sep_ok ys"
  by (induction xs) auto

lemma sep_ok_prefix: "sep_ok (xs @ ys) \<Longrightarrow> sep_ok xs"
  by (induction xs) (auto simp: hd_append split: if_splits)

lemma sep_ok_hd: "sep_ok s \<Longrightarrow> s \<noteq> [] \<Longrightarrow> hd s \<noteq> CHR ''-'' \<Longrightarrow> alnum (hd s)"
  by (cases s) auto

lemma sep_ok_last: "sep_ok s \<Longrightarrow> s \<noteq> [] \<Longrightarrow> last s \<noteq> CHR ''-'' \<Longrightarrow> alnum (last s)"
  by (induction s) (auto split: if_splits)

lemma collapse_sep_ok:
  "sep_ok (replace_g (Rep (\<lambda>c. \<not> alnum c) 1 None) ''-'' i s)"
proof (induction "length s" arbitrary: s i rule: less_induct)
  case less
  let ?R = "Rep (\<lambda>c. \<not> alnum c) 1 None"
  show ?case
  proof (cases s)
    case Nil
    then show ?thesis by (simp add: collapse_nil del: One_nat_def)
  next
    case (Cons x xs)
    show ?thesis
    proof (cases "alnum x")
      case True
      with less[of xs "Suc i"] Cons show ?thesis
        by (simp add: collapse_keep del: One_nat_def)
    next
      case False
      let ?d = "dropWhile (\<lambda>c. \<not> alnum c) xs"
      let ?k = "i + Suc (length (takeWhile (\<lambda>c. \<not> alnum c) xs))"
      have step: "replace_g ?R ''-'' i s = CHR ''-'' # replace_g ?R ''-'' ?k ?d"
        using False Cons collapse_run[of "\<lambda>c. \<not> alnum c" x "''-''" i xs] by simp
      have "length ?d \<le> length xs" by (rule length_dropWhile_le)
      with Cons have ok: "sep_ok (replace_g ?R ''-'' ?k ?d)"
        by (intro less) simp
      have "replace_g ?R ''-'' ?k ?d = [] \<or> alnum (hd (replace_g ?R ''-'' ?k ?d))"
      proof (cases ?d)
        case Nil
        show ?thesis unfolding Nil collapse_nil by simp
      next
        case d: (Cons y ys)
        then have y: "alnum y" using hd_dropWhile[of "\<lambda>c. \<not> alnum c" xs] by simp
        from collapse_keep[of "\<lambda>c. \<not> alnum c" y "''-''" ?k ys] y
        show ?thesis unfolding d by simp
      qed
      with ok step show ?thesis by simp
    qed
  qed
qed

lemma strip_trailing_prefix:
  "s = strip_trailing p s @ rev (takeWhile p (rev s))"
  unfolding strip_trailing_def
  by (metis rev_append rev_rev_ident takeWhile_dropWhile_id)

lemma strip_trailing_last:
  "strip_trailing p s \<noteq> [] \<Longrightarrow> \<not> p (last (strip_trailing p s))"
  using hd_dropWhile[of p "rev s"] by (simp add: strip_trailing_def last_rev)

lemma generateSlug_shaped: "slug_shaped (generateSlug t)"
proof -
  let ?dash = "\<lambda>c. c = CHR ''-''"
  define a where "a = replace_g (Rep (\<lambda>c. \<not> alnum c) 1 None) ''-'' 0 (trim (toLowerCase t))"
  define b where "b = dropWhile ?dash a"
  define c where "c = strip_trailing ?dash b"
  have g: "generateSlug t = c" by (simp add: generateSlug_eq a_def b_def c_def)
  have "sep_ok a" unfolding a_def by (rule collapse_sep_ok)
  then have "sep_ok (takeWhile ?dash a @ b)" by (simp add: b_def)
  then have sb: "sep_ok b" by (rule sep_ok_suffix)
  have bc: "b = c @ rev (takeWhile ?dash (rev b))"
    unfolding c_def by (rule strip_trailing_prefix)
  with sb have sc: "sep_ok c" by (metis sep_ok_prefix)
  have "alnum (hd c) \<and> alnum (last c)" if ne: "c \<noteq> []"
  proof
    from ne bc have "b \<noteq> []" by auto
    then have "hd b \<noteq> CHR ''-''" using hd_dropWhile[of ?dash a] by (simp add: b_def)
    moreover from ne bc have "hd b = hd c" by (metis hd_append2)
    ultimately show "alnum (hd c)" using sc ne by (simp add: sep_ok_hd)
    from strip_trailing_last[of ?dash b] ne have "last c \<noteq> CHR ''-''" by (simp add: c_def)
    with sc ne show "alnum (last c)" by (simp add: sep_ok_last)
  qed
  with sc g show ?thesis by (auto simp: slug_shaped_def)
qed

subsection \<open>A shaped slug matches the pattern of the specification\<close>

lemma segments_match:
  assumes "sep_ok t" and "t = [] \<or> hd t = CHR ''-''" and "t = [] \<or> alnum (last t)"
  shows "\<exists>j c'. (j, [], c') \<in> set (rxm (Star (Grp 1 (Seq (Chr CHR ''-'') (Rep alnum 1 None)))) (i, t, c))"
  using assms
proof (induction "length t" arbitrary: t i c rule: less_induct)
  case less
  let ?B = "Grp 1 (Seq (Chr CHR ''-'') (Rep alnum 1 None))"
  show ?case
  proof (cases t)
    case Nil
    with rxm_Star_stop[of i "[]" c ?B] show ?thesis by blast
  next
    case (Cons x u)
    with less.prems have x: "x = CHR ''-''" by simp
    have "u \<noteq> []"
    proof
      assume "u = []"
      with Cons x less.prems(3) have "alnum CHR ''-''" by simp
      then show False by (auto dest: alnum_not_dash)
    qed
    then obtain y ys where u: "u = y # ys" by (cases u) auto
    with less.prems(1) Cons x have y: "alnum y" by simp
    define d where "d = dropWhile alnum ys"
    define k where "k = Suc i + Suc (length (takeWhile alnum ys))"
    have "(k, d, c) \<in> set (rxm (Rep alnum 1 None) (Suc i, y # ys, c))"
      using y unfolding rxm_Rep1_some[of alnum y "Suc i" ys c, OF y] k_def d_def by simp
    then have "(k, d, c) \<in> set (rxm (Seq (Chr CHR ''-'') (Rep alnum 1 None)) (i, t, c))"
      unfolding rxm_Seq_mem Chr_def rxm_Cls_mem Cons x u by simp
    then have b: "(k, d, c(1 \<mapsto> take (k - i) t)) \<in> set (rxm ?B (i, t, c))"
      unfolding rxm_Grp_mem by blast
    have t: "t = (x # y # takeWhile alnum ys) @ d"
      by (simp add: Cons u d_def)
    then have len: "length d < length t"
      by (metis length_append length_Cons add.commute less_add_Suc2 list.size(4) add_Suc_right)
    from less.prems(1) t have sd: "sep_ok d" by (metis sep_ok_suffix)
    have hd: "d = [] \<or> hd d = CHR ''-''"
    proof (cases d)
      case Nil
      then show ?thesis by simp
    next
      case (Cons z zs)
      then have "\<not> alnum z" using hd_dropWhile[of alnum ys] by (simp add: d_def)
      with sd Cons show ?thesis by simp
    qed
    have "d = [] \<or> alnum (last d)"
    proof (cases "d = []")
      case True
      then show ?thesis by simp
    next
      case False
      with t have "last t = last d" by (metis last_appendR)
      with False less.prems(3) Cons show ?thesis by auto
    qed
    from less.hyps[OF len sd hd this, of k "c(1 \<mapsto> take (k - i) t)"]
    obtain j c' where "(j, [], c') \<in> set (rxm (Star ?B) (k, d, c(1 \<mapsto> take (k - i) t)))"
      by blast
    from rxm_Star_step[OF b len this] show ?thesis by blast
  qed
qed

lemma shaped_matches:
  assumes "slug_shaped s" and "s \<noteq> []"
  shows "rx_test slug_output_pattern s"
proof -
  let ?B = "Grp 1 (Seq (Chr CHR ''-'') (Rep alnum 1 None))"
  from assms obtain x xs where s: "s = x # xs" and x: "alnum x"
    by (cases s) (auto simp: slug_shaped_def)
  from assms have ok: "sep_ok s" and l: "alnum (last s)" by (auto simp: slug_shaped_def)
  define d where "d = dropWhile alnum xs"
  define k where "k = Suc (length (takeWhile alnum xs))"
  have 1: "(k, d, Map.empty) \<in> set (rxm (Rep alnum 1 None) (0, s, Map.empty))"
    unfolding s rxm_Rep1_some[of alnum x 0 xs Map.empty, OF x] k_def d_def by simp
  have t: "s = (x # takeWhile alnum xs) @ d" by (simp add: s d_def)
  with ok have sd: "sep_ok d" by (metis sep_ok_suffix)
  have hd: "d = [] \<or> hd d = CHR ''-''"
  proof (cases d)
    case Nil
    then show ?thesis by simp
  next
    case (Cons z zs)
    then have "\<not> alnum z" using hd_dropWhile[of alnum xs] by (simp add: d_def)
    with sd Cons show ?thesis by simp
  qed
  have "d = [] \<or> alnum (last d)"
  proof (cases "d = []")
    case True
    then show ?thesis by simp
  next
    case False
    with t have "last s = last d" by (metis last_appendR)
    with l show ?thesis by simp
  qed
  from segments_match[OF sd hd this, of k Map.empty]
  obtain j c' where 2: "(j, [], c') \<in> set (rxm (Star ?B) (k, d, Map.empty))" by blast
  have 3: "(j, [], c') \<in> set (rxm Eol (j, [], c'))" by simp
  have 0: "(0, s, Map.empty) \<in> set (rxm Bol (0, s, Map.empty))" by simp
  from 0 1 2 3 have "(j, [], c') \<in> set (rxm slug_output_pattern (0, s, Map.empty))"
    unfolding slug_output_pattern_def rxm_Seq_mem by blast
  then have "rxm slug_output_pattern (0, s, Map.empty) \<noteq> []" by auto
  moreover have "rx_search slug_output_pattern 0 s =
      (case rxm slug_output_pattern (0, s, Map.empty) of [] \<Rightarrow> None | m # _ \<Rightarrow> Some (0, m))"
    unfolding slug_output_pattern_def by (rule rx_search_Bol)
  ultimately show ?thesis by (simp add: rx_test_def split: list.splits)
qed

subsection \<open>The slug normalizer leaves a shaped slug as it is\<close>

lemma sep_ok_chars: "sep_ok s \<Longrightarrow> c \<in> set s \<Longrightarrow> alnum c \<or> c = CHR ''-''"
  by (induction s) auto

lemma slug_char_plain:
  "alnum c \<or> c = CHR ''-'' \<Longrightarrow> \<not> is_upper c \<and> \<not> is_space c"
  by (auto simp: alnum_def Rng_def is_upper_def is_space_def less_eq_char_def)

lemma shaped_toLowerCase: "sep_ok s \<Longrightarrow> toLowerCase s = s"
  unfolding toLowerCase_def
  by (rule map_idI) (auto simp: toLowerCase_char_def dest!: sep_ok_chars slug_char_plain)

lemma shaped_trim: "slug_shaped s \<Longrightarrow> trim s = s"
proof (cases "s = []")
  case True
  then show ?thesis by (simp add: trim_def)
next
  case False
  assume "slug_shaped s"
  with False have "alnum (hd s)" and "alnum (last s)"
    by (auto simp: slug_shaped_def)
  with slug_char_plain[of "hd s"] slug_char_plain[of "last s"]
  have "\<not> is_space (hd s)" and l: "\<not> is_space (last s)"
    by blast+
  then have "dropWhile is_space s = s" using False by (cases s) auto
  moreover have "dropWhile is_space (rev s) = rev s"
    using False l by (cases "rev s") (auto simp: last_rev[symmetric] simp del: last_rev)
  ultimately show ?thesis by (simp add: trim_def)
qed

lemma shaped_collapse:
  "sep_ok s \<Longrightarrow> replace_g (Rep (\<lambda>c. \<not> alnum c) 1 None) ''-'' i s = s"
proof (induction s arbitrary: i)
  case Nil
  show ?case by (rule collapse_nil)
next
  case (Cons x xs)
  show ?case
  proof (cases "alnum x")
    case True
    with Cons collapse_keep[of "\<lambda>c. \<not> alnum c" x "''-''" i xs] show ?thesis by simp
  next
    case False
    with Cons.prems have x: "x = CHR ''-''" and xs: "xs = [] \<or> alnum (hd xs)" by auto
    from xs have "dropWhile (\<lambda>c. \<not> alnum c) xs = xs" by (cases xs) auto
    with collapse_run[of "\<lambda>c. \<not> alnum c" x "''-''" i xs] False Cons x show ?thesis by simp
  qed
qed

lemma shaped_strip:
  assumes "slug_shaped s"
  shows "strip_trailing (\<lambda>c. c = CHR ''-'') (dropWhile (\<lambda>c. c = CHR ''-'') s) = s"
proof (cases "s = []")
  case True
  then show ?thesis by (simp add: strip_trailing_def)
next
  case False
  with assms have h: "hd s \<noteq> CHR ''-''" and l: "last s \<noteq> CHR ''-''"
    by (auto simp: slug_shaped_def dest: alnum_not_dash)
  from h False have "dropWhile (\<lambda>c. c = CHR ''-'') s = s" by (cases s) auto
  moreover have "dropWhile (\<lambda>c. c = CHR ''-'') (rev s) = rev s"
    using False l by (cases "rev s") (auto simp: last_rev[symmetric] simp del: last_rev)
  ultimately show ?thesis by (simp add: strip_trailing_def)
qed

lemma generateSlug_shaped_id:
  assumes "slug_shaped s"
  shows "generateSlug s = s"
proof -
  from assms have ok: "sep_ok s" by (simp add: slug_shaped_def)
  show ?thesis
    unfolding generateSlug_eq shaped_toLowerCase[OF ok] shaped_trim[OF assms]
      shaped_collapse[OF ok] shaped_strip[OF assms] ..
qed

subsection \<open>The result\<close>

text \<open>
  C3. For every title, the output of the slug normalizer matches
  \<open>/^[a-z0-9]+(-[a-z0-9]+)*$/\<close> or is the empty string, and the normalizer applied to its
  own output returns that output.
\<close>

theorem generateSlug_pattern_idempotent:
  "(rx_test slug_output_pattern (generateSlug t) \<or> generateSlug t = []) \<and>
   generateSlug (generateSlug t) = generateSlug t"
proof
  show "rx_test slug_output_pattern (generateSlug t) \<or> generateSlug t = []"
    using shaped_matches[OF generateSlug_shaped[of t]] by blast
  show "generateSlug (generateSlug t) = generateSlug t"
    using generateSlug_shaped by (rule generateSlug_shaped_id)
qed

text \<open>
  Two titles: one gives \<open>hello-world-2024-next-js\<close>, and one without a letter or digit
  gives the empty string.
\<close>

theorem generateSlug_pattern_idempotent_witness:
  "generateSlug ''  Hello, World!! 2024 -- Next.js  '' = ''hello-world-2024-next-js'' \<and>
   rx_test slug_output_pattern ''hello-world-2024-next-js'' \<and>
   generateSlug ''hello-world-2024-next-js'' = ''hello-world-2024-next-js'' \<and>
   generateSlug ''!!!'' = [] \<and> generateSlug [] = []"
proof -
  have 1: "generateSlug ''  Hello, World!! 2024 -- Next.js  '' = ''hello-world-2024-next-js''"
    by (simp add: generateSlug_def str_defs cls_defs rx_eval cong: prod.case_cong_weak)
  have 2: "generateSlug ''!!!'' = []"
    by (simp add: generateSlug_def str_defs cls_defs rx_eval cong: prod.case_cong_weak)
  from generateSlug_pattern_idempotent[of "''  Hello, World!! 2024 -- Next.js  ''"]
    generateSlug_pattern_idempotent[of "''!!!''"] 1 2
  show ?thesis by simp
qed

section \<open>C4 and C5: the similarity query\<close>

lemma in_match_iff: "in_match (tags e) ts \<longleftrightarrow> tag_set e \<inter> set ts \<noteq> {}"
  by (auto simp: in_match_def tag_set_def list_ex_iff split: option.splits)

lemma getSimilar_try_connect_fails:
  "fst (connectDB env w) = Inl e \<Longrightarrow> fst (getSimilarEventsBySlug_try env s w) = Inl e"
  by (cases "connectDB env w") (simp add: getSimilarEventsBySlug_try_def)

lemma getSimilar_try_connected:
  "fst (connectDB env w) = Inr h \<Longrightarrow>
     fst (getSimilarEventsBySlug_try env s w) =
       (case store_fault env (FindOne s) of
          Some e \<Rightarrow> Inl e
        | None \<Rightarrow>
           (case find (\<lambda>e. slug e = Some s) (events env) of
              None \<Rightarrow> Inl (JsError ''Cannot read properties of null (reading '_id')'')
            | Some src \<Rightarrow>
               (case store_fault env (Find (doc_id src) (tags_or_empty src)) of
                  Some e \<Rightarrow> Inl e
                | None \<Rightarrow>
                    Inr (map serialize
                          (filter (\<lambda>e. doc_id e \<noteq> doc_id src \<and> in_match (tags e) (tags_or_empty src))
                             (events env))))))"
  by (cases "connectDB env w")
     (simp add: getSimilarEventsBySlug_try_def Event_findOne_def Event_find_def run_query_def Let_def
        split: option.splits)

lemma getSimilar_fst:
  "fst (getSimilarEventsBySlug env s w) =
     (case fst (getSimilarEventsBySlug_try env s w) of Inl _ \<Rightarrow> Inr [] | Inr r \<Rightarrow> Inr r)"
  by (cases "getSimilarEventsBySlug_try env s w")
     (simp add: getSimilarEventsBySlug_def split: sum.splits)

text \<open>
  C4. The similarity query never raises to its caller: for every slug, environment and
  state it returns a list. When acquiring the connection fails, when the lookup of the
  source event faults or finds no event, or when the query for the similar events
  faults, the list is empty.
\<close>

theorem getSimilarEventsBySlug_never_raises:
  "(\<exists>r. fst (getSimilarEventsBySlug env s w) = Inr r) \<and>
   ((\<exists>e. fst (connectDB env w) = Inl e) \<or>
    (\<exists>e. store_fault env (FindOne s) = Some e) \<or>
    find (\<lambda>e. slug e = Some s) (events env) = None \<or>
    (\<exists>src e. find (\<lambda>e. slug e = Some s) (events env) = Some src \<and>
             store_fault env (Find (doc_id src) (tags_or_empty src)) = Some e)
    \<longrightarrow> fst (getSimilarEventsBySlug env s w) = Inr [])"
proof
  show "\<exists>r. fst (getSimilarEventsBySlug env s w) = Inr r"
    by (simp add: getSimilar_fst split: sum.splits)
next
  show "(\<exists>e. fst (connectDB env w) = Inl e) \<or>
    (\<exists>e. store_fault env (FindOne s) = Some e) \<or>
    find (\<lambda>e. slug e = Some s) (events env) = None \<or>
    (\<exists>src e. find (\<lambda>e. slug e = Some s) (events env) = Some src \<and>
             store_fault env (Find (doc_id src) (tags_or_empty src)) = Some e)
    \<longrightarrow> fst (getSimilarEventsBySlug env s w) = Inr []"
  proof
    assume a: "(\<exists>e. fst (connectDB env w) = Inl e) \<or>
      (\<exists>e. store_fault env (FindOne s) = Some e) \<or>
      find (\<lambda>e. slug e = Some s) (events env) = None \<or>
      (\<exists>src e. find (\<lambda>e. slug e = Some s) (events env) = Some src \<and>
               store_fault env (Find (doc_id src) (tags_or_empty src)) = Some e)"
    have "\<exists>e. fst (getSimilarEventsBySlug_try env s w) = Inl e"
    proof (cases "fst (connectDB env w)")
      case (Inl e)
      then show ?thesis by (simp add: getSimilar_try_connect_fails)
    next
      case (Inr h)
      with a show ?thesis
        by (auto simp: getSimilar_try_connected[OF Inr] split: option.splits)
    qed
    then show "fst (getSimilarEventsBySlug env s w) = Inr []"
      by (auto simp: getSimilar_fst)
  qed
qed

theorem getSimilarEventsBySlug_never_raises_witness:
  "fst (getSimilarEventsBySlug (env_down None) ''my-event'' fresh_world) = Inr [] \<and>
   fst (getSimilarEventsBySlug env_up ''no-such-event'' fresh_world) = Inr [] \<and>
   fst (getSimilarEventsBySlug (env_faulty (\<lambda>q. Some JsNonError)) ''my-event'' fresh_world) = Inr []"
proof -
  have d: "fst (connectDB (env_down None) fresh_world) = Inl (JsError ''connect ECONNREFUSED'')"
    by (simp add: handler_defs sample_defs store_defs)
  have n: "find (\<lambda>e. slug e = Some ''no-such-event'') (events env_up) = None"
    by (simp add: handler_defs sample_defs)
  have f: "store_fault (env_faulty (\<lambda>q. Some JsNonError)) (FindOne ''my-event'') = Some JsNonError"
    by (simp add: env_faulty_def sample_defs)
  from getSimilarEventsBySlug_never_raises[of "env_down None" "''my-event''" fresh_world] d
  have 1: "fst (getSimilarEventsBySlug (env_down None) ''my-event'' fresh_world) = Inr []"
    by blast
  from getSimilarEventsBySlug_never_raises[of env_up "''no-such-event''" fresh_world] n
  have 2: "fst (getSimilarEventsBySlug env_up ''no-such-event'' fresh_world) = Inr []"
    by blast
  from getSimilarEventsBySlug_never_raises[of "env_faulty (\<lambda>q. Some JsNonError)" "''my-event''" fresh_world] f
  have 3: "fst (getSimilarEventsBySlug (env_faulty (\<lambda>q. Some JsNonError)) ''my-event'' fresh_world) = Inr []"
    by blast
  from 1 2 3 show ?thesis by blast
qed

text \<open>
  C5. When the connection is acquired, the source event is found by its slug and no
  store operation faults, the similarity query returns one object for each event whose
  \<open>_id\<close> is not the source's and whose tags share at least one tag with the source's
  tags, for no other event, and in the order of the store. The object of an event
  carries the fields of that event, its \<open>_id\<close> as a string, its \<open>createdAt\<close> and
  \<open>updatedAt\<close> as ISO strings, and no \<open>date\<close>. When the source's tags are absent or
  empty the result is empty. In a store whose \<open>_id\<close>s are distinct, the events whose
  \<open>_id\<close> is not the source's are the events other than the source.
\<close>

theorem getSimilarEventsBySlug_selects:
  assumes "fst (connectDB env w) = Inr h"
    and "store_fault env (FindOne s) = None"
    and "find (\<lambda>e. slug e = Some s) (events env) = Some src"
    and "store_fault env (Find (doc_id src) (tags_or_empty src)) = None"
  shows "(let sel = filter (\<lambda>e. doc_id e \<noteq> doc_id src \<and> tag_set e \<inter> tag_set src \<noteq> {}) (events env)
          in (\<exists>r. fst (getSimilarEventsBySlug env s w) = Inr r \<and>
                   map spread r = sel \<and>
                   map id_string r = map (\<lambda>e. Some (doc_id e)) sel \<and>
                   map createdAt_iso r = map (\<lambda>e. Some (createdAt e)) sel \<and>
                   map updatedAt_iso r = map (\<lambda>e. Some (updatedAt e)) sel \<and>
                   map date_iso r = map (\<lambda>e. None) sel) \<and>
             (tags src = None \<or> tags src = Some [] \<longrightarrow>
                fst (getSimilarEventsBySlug env s w) = Inr []) \<and>
             (distinct (map doc_id (events env)) \<longrightarrow>
                sel = filter (\<lambda>e. e \<noteq> src \<and> tag_set e \<inter> tag_set src \<noteq> {}) (events env)))"
proof -
  define sel where
    "sel = filter (\<lambda>e. doc_id e \<noteq> doc_id src \<and> tag_set e \<inter> tag_set src \<noteq> {}) (events env)"
  have t: "set (tags_or_empty src) = tag_set src"
    by (simp add: tags_or_empty_def tag_set_def split: option.splits)
  have r: "fst (getSimilarEventsBySlug env s w) = Inr (map serialize sel)"
    using assms
    by (simp add: sel_def getSimilar_fst getSimilar_try_connected[OF assms(1)] in_match_iff t)
  have p: "map spread (map serialize sel) = sel"
    "map id_string (map serialize sel) = map (\<lambda>e. Some (doc_id e)) sel"
    "map createdAt_iso (map serialize sel) = map (\<lambda>e. Some (createdAt e)) sel"
    "map updatedAt_iso (map serialize sel) = map (\<lambda>e. Some (updatedAt e)) sel"
    "map date_iso (map serialize sel) = map (\<lambda>e. None) sel"
    by (simp_all add: serialize_def comp_def)
  have 1: "\<exists>r. fst (getSimilarEventsBySlug env s w) = Inr r \<and>
                   map spread r = sel \<and>
                   map id_string r = map (\<lambda>e. Some (doc_id e)) sel \<and>
                   map createdAt_iso r = map (\<lambda>e. Some (createdAt e)) sel \<and>
                   map updatedAt_iso r = map (\<lambda>e. Some (updatedAt e)) sel \<and>
                   map date_iso r = map (\<lambda>e. None) sel"
    using r p by blast
  have e: "tag_set src = {}" if "tags src = None \<or> tags src = Some []"
    using that by (auto simp: tag_set_def)
  have 2: "tags src = None \<or> tags src = Some [] \<longrightarrow> fst (getSimilarEventsBySlug env s w) = Inr []"
    using r e by (auto simp: sel_def)
  have 3: "sel = filter (\<lambda>e. e \<noteq> src \<and> tag_set e \<inter> tag_set src \<noteq> {}) (events env)"
    if d: "distinct (map doc_id (events env))"
    unfolding sel_def
  proof (rule filter_cong[OF refl])
    fix e
    assume e: "e \<in> set (events env)"
    from assms(3) have "src \<in> set (events env)" by (auto simp: find_Some_iff)
    with d e have "doc_id e = doc_id src \<longleftrightarrow> e = src"
      by (auto simp: distinct_map dest: inj_onD)
    then show "(doc_id e \<noteq> doc_id src \<and> tag_set e \<inter> tag_set src \<noteq> {}) =
        (e \<noteq> src \<and> tag_set e \<inter> tag_set src \<noteq> {})"
      by simp
  qed
  from 1 2 3 show ?thesis unfolding Let_def sel_def[symmetric] by blast
qed

theorem getSimilarEventsBySlug_selects_witness:
  "(\<exists>r. fst (getSimilarEventsBySlug env_up ''my-event'' fresh_world) = Inr r \<and>
        map spread r = [sample_event ''e2'' ''cloud-day'' (Some [''cloud''])] \<and>
        map id_string r = [Some ''e2''] \<and>
        map createdAt_iso r = [Some ''2025-01-01T00:00:00.000Z''] \<and>
        map updatedAt_iso r = [Some ''2025-01-01T00:00:00.000Z''] \<and>
        map date_iso r = [None]) \<and>
   fst (getSimilarEventsBySlug env_up ''untagged'' fresh_world) = Inr []"
proof -
  have c: "fst (connectDB env_up fresh_world) = Inr 1"
    by (simp add: handler_defs sample_defs store_defs)
  have nofault: "\<And>q. store_fault env_up q = None"
    by (simp add: env_up_def sample_env_def)
  have f1: "find (\<lambda>e. slug e = Some ''my-event'') (events env_up) =
      Some (sample_event ''e1'' ''my-event'' (Some [''ai'', ''cloud'']))"
    by (simp add: handler_defs sample_defs)
  have f2: "find (\<lambda>e. slug e = Some ''untagged'') (events env_up) =
      Some (sample_event ''e4'' ''untagged'' None)"
    by (simp add: handler_defs sample_defs)
  have sel: "filter (\<lambda>e. doc_id e \<noteq> doc_id (sample_event ''e1'' ''my-event'' (Some [''ai'', ''cloud''])) \<and>
                tag_set e \<inter> tag_set (sample_event ''e1'' ''my-event'' (Some [''ai'', ''cloud''])) \<noteq> {})
               (events env_up) = [sample_event ''e2'' ''cloud-day'' (Some [''cloud''])]"
    by (simp add: handler_defs sample_defs tag_set_def)
  have fields: "doc_id (sample_event ''e2'' ''cloud-day'' (Some [''cloud''])) = ''e2''"
    "createdAt (sample_event ''e2'' ''cloud-day'' (Some [''cloud''])) = ''2025-01-01T00:00:00.000Z''"
    "updatedAt (sample_event ''e2'' ''cloud-day'' (Some [''cloud''])) = ''2025-01-01T00:00:00.000Z''"
    by (simp_all add: sample_event_def)
  have t2: "tags (sample_event ''e4'' ''untagged'' None) = None"
    by (simp add: sample_defs)
  from getSimilarEventsBySlug_selects[OF c nofault f1 nofault]
  have 1: "\<exists>r. fst (getSimilarEventsBySlug env_up ''my-event'' fresh_world) = Inr r \<and>
        map spread r = [sample_event ''e2'' ''cloud-day'' (Some [''cloud''])] \<and>
        map id_string r = [Some ''e2''] \<and>
        map createdAt_iso r = [Some ''2025-01-01T00:00:00.000Z''] \<and>
        map updatedAt_iso r = [Some ''2025-01-01T00:00:00.000Z''] \<and>
        map date_iso r = [None]"
    unfolding Let_def sel list.map fields by blast
  from getSimilarEventsBySlug_selects[OF c nofault f2 nofault] t2
  have 2: "fst (getSimilarEventsBySlug env_up ''untagged'' fresh_world) = Inr []"
    unfolding Let_def by blast
  from 1 2 show ?thesis by blast
qed

section \<open>C6: the connection manager's cache\<close>

lemma connectDB_cached:
  "conn (cached w) = Some h \<Longrightarrow>
     connectDB env w = (Inr h, w\<lparr>accesses := accesses w @ [Acquire]\<rparr>)"
  by (simp add: connectDB_def)

lemma connectDB_success:
  assumes "fst (connectDB env w) = Inr h"
  shows "conn (cached (snd (connectDB env w))) = Some h"
  using assms
  by (auto simp: connectDB_def await_promise_def Let_def split: option.splits sum.splits if_splits)

lemma connectDB_times_cached:
  "conn (cached w) = Some h \<Longrightarrow>
     fst (connectDB_times n env w) = replicate n (Inr h) \<and>
     cached (snd (connectDB_times n env w)) = cached w \<and>
     connects (snd (connectDB_times n env w)) = connects w"
proof (induction n arbitrary: w)
  case 0
  then show ?case by simp
next
  case (Suc n)
  let ?w1 = "w\<lparr>accesses := accesses w @ [Acquire]\<rparr>"
  have c: "connectDB env w = (Inr h, ?w1)" using Suc.prems by (rule connectDB_cached)
  have "conn (cached ?w1) = Some h" using Suc.prems by simp
  from Suc.IH[OF this] show ?case by (auto simp: c split: prod.splits)
qed

lemma connectDB_failure:
  assumes "fst (connectDB env w) = Inl e"
  shows "conn (cached (snd (connectDB env w))) = None \<and> promise (cached (snd (connectDB env w))) = None"
  using assms
  by (auto simp: connectDB_def await_promise_def Let_def split: option.splits sum.splits if_splits)

lemma connectDB_awaits:
  assumes "conn (cached w) = None" and "promise (cached w) \<noteq> None \<or> uri_defined env"
  shows "fst (connectDB env w) = connect_outcome env (attempt_awaited w)"
  using assms
  by (auto simp: connectDB_def await_promise_def Let_def attempt_awaited_def uri_defined_def
      split: option.splits sum.splits if_splits)

lemma connectDB_fresh_attempt:
  assumes "conn (cached w) = None" and "promise (cached w) = None" and "uri_defined env"
  shows "connects (snd (connectDB env w)) = Suc (connects w) \<and>
         fst (connectDB env w) = connect_outcome env (connects w)"
  using assms
  by (auto simp: connectDB_def await_promise_def Let_def uri_defined_def
      split: option.splits sum.splits if_splits)

text \<open>
  C6. The cache of the connection manager. Once a call of \<open>connectDB\<close> has returned a
  handle, the handle is cached, and every later call, however many and whatever the
  environment does, returns that handle and makes no connection attempt. When no handle
  is cached and the attempt a call awaits is rejected, the call throws that rejection
  and leaves no promise in the cache; the next call (with a connection string defined)
  makes a new attempt, the next in number, and returns what that attempt gives.
\<close>

theorem connectDB_cache_state_machine:
  "(fst (connectDB env w) = Inr h \<longrightarrow>
      conn (cached (snd (connectDB env w))) = Some h \<and>
      (\<forall>n env'. fst (connectDB_times n env' (snd (connectDB env w))) = replicate n (Inr h) \<and>
                 connects (snd (connectDB_times n env' (snd (connectDB env w)))) =
                 connects (snd (connectDB env w)))) \<and>
   (conn (cached w) = None \<and> (promise (cached w) \<noteq> None \<or> uri_defined env) \<and>
    connect_outcome env (attempt_awaited w) = Inl e \<longrightarrow>
      fst (connectDB env w) = Inl e \<and>
      promise (cached (snd (connectDB env w))) = None \<and>
      (\<forall>env'. uri_defined env' \<longrightarrow>
         connects (snd (connectDB env' (snd (connectDB env w)))) =
           Suc (connects (snd (connectDB env w))) \<and>
         fst (connectDB env' (snd (connectDB env w))) =
           connect_outcome env' (connects (snd (connectDB env w)))))"
proof (intro conjI impI allI)
  assume ok: "fst (connectDB env w) = Inr h"
  then show c: "conn (cached (snd (connectDB env w))) = Some h" by (rule connectDB_success)
  fix n env'
  from connectDB_times_cached[OF c, of n env']
  show "fst (connectDB_times n env' (snd (connectDB env w))) = replicate n (Inr h)"
    and "connects (snd (connectDB_times n env' (snd (connectDB env w)))) =
         connects (snd (connectDB env w))"
    by simp_all
next
  assume a: "conn (cached w) = None \<and> (promise (cached w) \<noteq> None \<or> uri_defined env) \<and>
    connect_outcome env (attempt_awaited w) = Inl e"
  then show f: "fst (connectDB env w) = Inl e" using connectDB_awaits[of w env] by simp
  from connectDB_failure[OF f]
  show "promise (cached (snd (connectDB env w))) = None" by simp
  fix env'
  assume "uri_defined env'"
  with connectDB_failure[OF f] connectDB_fresh_attempt[of "snd (connectDB env w)" env']
  show "connects (snd (connectDB env' (snd (connectDB env w)))) =
           Suc (connects (snd (connectDB env w)))"
    and "fst (connectDB env' (snd (connectDB env w))) =
           connect_outcome env' (connects (snd (connectDB env w)))"
    by simp_all
qed

text \<open>
  An instance: the first call connects and three more calls return the handle with one
  attempt made in all; and a first call that is refused clears the cache, after which a
  second call connects on the second attempt.
\<close>

theorem connectDB_cache_state_machine_witness:
  "fst (connectDB env_up fresh_world) = Inr 1 \<and>
   conn (cached (snd (connectDB env_up fresh_world))) = Some 1 \<and>
   fst (connectDB_times 3 (env_down None) (snd (connectDB env_up fresh_world))) =
     [Inr 1, Inr 1, Inr 1] \<and>
   connects (snd (connectDB_times 3 (env_down None) (snd (connectDB env_up fresh_world)))) = 1 \<and>
   fst (connectDB (env_down None) fresh_world) = Inl (JsError ''connect ECONNREFUSED'') \<and>
   promise (cached (snd (connectDB (env_down None) fresh_world))) = None \<and>
   connects (snd (connectDB env_up (snd (connectDB (env_down None) fresh_world)))) = 2 \<and>
   fst (connectDB env_up (snd (connectDB (env_down None) fresh_world))) = Inr 1"
proof -
  have up: "fst (connectDB env_up fresh_world) = Inr 1"
    by (simp add: handler_defs sample_defs store_defs)
  have c1: "connects (snd (connectDB env_up fresh_world)) = 1"
    by (simp add: handler_defs sample_defs store_defs)
  have pre: "conn (cached fresh_world) = None \<and>
      (promise (cached fresh_world) \<noteq> None \<or> uri_defined (env_down None)) \<and>
      connect_outcome (env_down None) (attempt_awaited fresh_world) =
        Inl (JsError ''connect ECONNREFUSED'')"
    by (simp add: handler_defs sample_defs uri_defined_def attempt_awaited_def)
  have u: "uri_defined env_up"
    by (simp add: handler_defs sample_defs uri_defined_def)
  have c2: "connects (snd (connectDB (env_down None) fresh_world)) = 1"
    by (simp add: handler_defs sample_defs store_defs)
  have o: "connect_outcome env_up 1 = Inr 1"
    by (simp add: handler_defs sample_defs)
  from connectDB_cache_state_machine[of env_up fresh_world 1] up c1
  have a: "conn (cached (snd (connectDB env_up fresh_world))) = Some 1 \<and>
      fst (connectDB_times 3 (env_down None) (snd (connectDB env_up fresh_world))) =
        replicate 3 (Inr 1) \<and>
      connects (snd (connectDB_times 3 (env_down None) (snd (connectDB env_up fresh_world)))) = 1"
    by simp
  note failing = connectDB_cache_state_machine[of "env_down None" fresh_world 0
      "JsError ''connect ECONNREFUSED''", THEN conjunct2, THEN mp, OF pre]
  then have "connects (snd (connectDB env_up (snd (connectDB (env_down None) fresh_world)))) =
           Suc (connects (snd (connectDB (env_down None) fresh_world))) \<and>
         fst (connectDB env_up (snd (connectDB (env_down None) fresh_world))) =
           connect_outcome env_up (connects (snd (connectDB (env_down None) fresh_world)))"
    using u by blast
  with failing c2 o
  have b: "fst (connectDB (env_down None) fresh_world) = Inl (JsError ''connect ECONNREFUSED'') \<and>
      promise (cached (snd (connectDB (env_down None) fresh_world))) = None \<and>
      connects (snd (connectDB env_up (snd (connectDB (env_down None) fresh_world)))) = 2 \<and>
      fst (connectDB env_up (snd (connectDB (env_down None) fresh_world))) = Inr 1"
    by simp
  have r: "replicate 3 (Inr 1 :: js_thrown + handle) = [Inr 1, Inr 1, Inr 1]"
    by (simp add: numeral_3_eq_3)
  from up a b r show ?thesis by simp
qed

section \<open>C7: faults in the retrieval handler\<close>

text \<open>
  C7 (as amended). When the slug is valid and acquiring the connection or the lookup
  fails, the retrieval handler answers status 500 with \<open>INTERNAL_SERVER_ERROR\<close>. The
  \<open>details\<close> field is there exactly when \<open>NODE_ENV\<close> is \<open>development\<close> (it is the
  message of the error, or a fixed text when what was thrown is no \<open>Error\<close>), and it is
  left out in every other context, production among them.
\<close>

theorem GET_fault_500:
  assumes "validateSlug (GET_rawSlug req) = Ok s"
    and "fst (connectDB env w) = Inl err \<or>
         ((\<exists>h. fst (connectDB env w) = Inr h) \<and> store_fault env (FindOne s) = Some err)"
  shows "fst (GET env req w) =
           \<lparr>status = 500,
            json = ErrorResponse ''Failed to fetch events.'' INTERNAL_SERVER_ERROR
                     (if NODE_ENV env = Some ''development''
                      then Some (case err of JsError m \<Rightarrow> m
                                 | JsNonError \<Rightarrow> ''An unexpected error occurred.'')
                      else None)\<rparr>"
proof -
  from assms(2) have "fst (GET env req w) = server_error env err"
  proof
    assume "fst (connectDB env w) = Inl err"
    with assms(1) show ?thesis by (rule GET_connect_fails)
  next
    assume "(\<exists>h. fst (connectDB env w) = Inr h) \<and> store_fault env (FindOne s) = Some err"
    then obtain h where "fst (connectDB env w) = Inr h" and f: "store_fault env (FindOne s) = Some err"
      by blast
    from GET_connected[OF assms(1) this(1)] f show ?thesis by simp
  qed
  then show ?thesis by (simp add: server_error_def Let_def)
qed

text \<open>
  In development a refused connection is reported with its message; under
  \<open>NODE_ENV=production\<close> the same fault is reported without it.
\<close>

theorem GET_fault_500_witness:
  "fst (GET (env_down (Some ''development'')) (req_path ''/api/events/my-event'') fresh_world) =
     \<lparr>status = 500,
      json = ErrorResponse ''Failed to fetch events.'' INTERNAL_SERVER_ERROR
               (Some ''connect ECONNREFUSED'')\<rparr> \<and>
   fst (GET (env_down (Some ''production'')) (req_path ''/api/events/my-event'') fresh_world) =
     \<lparr>status = 500,
      json = ErrorResponse ''Failed to fetch events.'' INTERNAL_SERVER_ERROR None\<rparr>"
proof -
  have v: "validateSlug (GET_rawSlug (req_path ''/api/events/my-event'')) = Ok ''my-event''"
    by (simp add: handler_defs str_defs cls_defs rx_eval)
  have d: "\<And>ne. fst (connectDB (env_down ne) fresh_world) = Inl (JsError ''connect ECONNREFUSED'')"
    by (simp add: handler_defs sample_defs store_defs)
  have n: "\<And>ne. NODE_ENV (env_down ne) = ne"
    by (simp add: handler_defs sample_defs)
  from GET_fault_500[OF v, of "env_down (Some ''development'')" fresh_world
      "JsError ''connect ECONNREFUSED''"]
    GET_fault_500[OF v, of "env_down (Some ''production'')" fresh_world
      "JsError ''connect ECONNREFUSED''"] d n
  show ?thesis by simp
qed

text \<open>
  C7 as stated has the details in every context that is not production. Under
  \<open>NODE_ENV=test\<close>, and with \<open>NODE_ENV\<close> unset, a refused connection is answered 500 with
  no details: the handler compares \<open>NODE_ENV\<close> with \<open>development\<close>.
\<close>

theorem GET_details_test_env_counterexample:
  "NODE_ENV (env_down (Some ''test'')) \<noteq> Some ''production'' \<and>
   status (fst (GET (env_down (Some ''test'')) (req_path ''/api/events/my-event'') fresh_world)) = 500 \<and>
   details (json (fst (GET (env_down (Some ''test'')) (req_path ''/api/events/my-event'') fresh_world))) = None \<and>
   NODE_ENV (env_down None) \<noteq> Some ''production'' \<and>
   details (json (fst (GET (env_down None) (req_path ''/api/events/my-event'') fresh_world))) = None"
  by (simp add: handler_defs sample_defs store_defs str_defs cls_defs rx_eval)

section \<open>C8: the booking validator\<close>

lemma pre_save_email_invalid:
  assumes "email doc = Some e"
    and "toLowerCase (trim e) = [] \<or> \<not> rx_test EMAIL_REGEX (toLowerCase (trim e))"
  shows "\<exists>msg. bookingSchema_pre_save env doc w = ((Some (JsError msg), doc), w)"
  using assms by (auto simp: bookingSchema_pre_save_def Let_def toLowerCase_def)

lemma pre_save_email_valid:
  assumes "email doc = Some e"
    and "rx_test EMAIL_REGEX (toLowerCase (trim e))" and "trim e \<noteq> []"
  shows "bookingSchema_pre_save env doc w =
     (let doc' = doc\<lparr>email := Some (toLowerCase (trim e))\<rparr> in
      if isNew doc \<or> isModified_eventId doc
      then (case eventId doc of
              None \<Rightarrow> ((Some (JsError ''eventId is required.''), doc'), w)
            | Some oid \<Rightarrow>
               (case store_fault env (Exists oid) of
                  Some err \<Rightarrow>
                    ((Some (case err of JsError m \<Rightarrow> JsError m
                            | JsNonError \<Rightarrow> JsError ''Failed to validate referenced event.''), doc'),
                     w\<lparr>accesses := accesses w @ [Query (Exists oid)]\<rparr>)
                | None \<Rightarrow>
                    if oid \<in> doc_id ` set (events env)
                    then ((None, doc'), w\<lparr>accesses := accesses w @ [Query (Exists oid)]\<rparr>)
                    else ((Some (JsError ''Referenced event does not exist.''), doc'),
                          w\<lparr>accesses := accesses w @ [Query (Exists oid)]\<rparr>)))
      else ((None, doc'), w))"
  using assms
  by (auto simp: bookingSchema_pre_save_def Let_def Event_exists_def run_query_def list_ex_iff
      split: option.splits)

text \<open>
  C8. The booking validator. When the email, trimmed and lowercased, matches the address
  pattern, the hook leaves the document with that normalized email, whatever it passes
  to \<open>next\<close>. When the normalized email is empty or fails the pattern, the hook rejects
  the write. When the email is valid, the booking is new or its event reference is
  modified, and no event of the store has the referenced id, the hook rejects the
  write; the error is \<open>Referenced event does not exist.\<close> unless the existence check
  itself faults.
\<close>

theorem bookingSchema_pre_save_validates:
  "(email doc = Some e \<and> trim e \<noteq> [] \<and> rx_test EMAIL_REGEX (toLowerCase (trim e)) \<longrightarrow>
      email (snd (fst (bookingSchema_pre_save env doc w))) = Some (toLowerCase (trim e))) \<and>
   (email doc = Some e \<and>
    (toLowerCase (trim e) = [] \<or> \<not> rx_test EMAIL_REGEX (toLowerCase (trim e))) \<longrightarrow>
      fst (fst (bookingSchema_pre_save env doc w)) \<noteq> None) \<and>
   (email doc = Some e \<and> trim e \<noteq> [] \<and> rx_test EMAIL_REGEX (toLowerCase (trim e)) \<and>
    (isNew doc \<or> isModified_eventId doc) \<and> eventId doc = Some oid \<and>
    oid \<notin> doc_id ` set (events env) \<longrightarrow>
      fst (fst (bookingSchema_pre_save env doc w)) \<noteq> None \<and>
      (store_fault env (Exists oid) = None \<longrightarrow>
         fst (fst (bookingSchema_pre_save env doc w)) =
           Some (JsError ''Referenced event does not exist.'')))"
proof (intro conjI impI)
  assume a: "email doc = Some e \<and> trim e \<noteq> [] \<and> rx_test EMAIL_REGEX (toLowerCase (trim e))"
  then show "email (snd (fst (bookingSchema_pre_save env doc w))) = Some (toLowerCase (trim e))"
    by (simp add: pre_save_email_valid Let_def split: option.splits js_thrown.splits)
next
  assume "email doc = Some e \<and>
    (toLowerCase (trim e) = [] \<or> \<not> rx_test EMAIL_REGEX (toLowerCase (trim e)))"
  with pre_save_email_invalid[of doc e env w]
  show "fst (fst (bookingSchema_pre_save env doc w)) \<noteq> None" by auto
next
  assume a: "email doc = Some e \<and> trim e \<noteq> [] \<and> rx_test EMAIL_REGEX (toLowerCase (trim e)) \<and>
    (isNew doc \<or> isModified_eventId doc) \<and> eventId doc = Some oid \<and>
    oid \<notin> doc_id ` set (events env)"
  then have v: "email doc = Some e" "rx_test EMAIL_REGEX (toLowerCase (trim e))" "trim e \<noteq> []"
    by simp_all
  from a show "fst (fst (bookingSchema_pre_save env doc w)) \<noteq> None"
    by (simp add: pre_save_email_valid[OF v] Let_def split: option.splits)
  assume "store_fault env (Exists oid) = None"
  with a show "fst (fst (bookingSchema_pre_save env doc w)) =
      Some (JsError ''Referenced event does not exist.'')"
    by (simp add: pre_save_email_valid[OF v] Let_def)
qed

text \<open>
  The email \<open>"  USER@Example.com "\<close> is stored as \<open>"user@example.com"\<close> and the write goes
  on when the event exists; an address without a dot in its domain, and a booking for an
  id that no event has, are rejected.
\<close>

theorem bookingSchema_pre_save_validates_witness:
  "email (snd (fst (bookingSchema_pre_save env_up (booking ''e1'' ''  USER@Example.com '') fresh_world))) =
     Some ''user@example.com'' \<and>
   fst (fst (bookingSchema_pre_save env_up (booking ''e1'' ''  USER@Example.com '') fresh_world)) = None \<and>
   fst (fst (bookingSchema_pre_save env_up (booking ''e1'' ''user@localhost'') fresh_world)) \<noteq> None \<and>
   fst (fst (bookingSchema_pre_save env_up (booking ''e9'' ''  USER@Example.com '') fresh_world)) =
     Some (JsError ''Referenced event does not exist.'')"
proof -
  have n: "toLowerCase (trim ''  USER@Example.com '') = ''user@example.com''"
    and t: "trim ''  USER@Example.com '' \<noteq> []"
    by (simp_all add: str_defs cls_defs)
  have m: "rx_test EMAIL_REGEX ''user@example.com''"
    by (simp add: EMAIL_REGEX_def str_defs cls_defs rx_eval)
  have n2: "toLowerCase (trim ''user@localhost'') = ''user@localhost''"
    by (simp add: str_defs cls_defs)
  have m2: "\<not> rx_test EMAIL_REGEX ''user@localhost''"
    by (simp add: EMAIL_REGEX_def str_defs cls_defs rx_eval)
  have ids: "doc_id ` set (events env_up) = {''e1'', ''e2'', ''e3'', ''e4''}"
    by (simp add: handler_defs sample_defs)
  have nofault: "\<And>q. store_fault env_up q = None"
    by (simp add: env_up_def sample_env_def)
  have b: "\<And>oid e. email (booking oid e) = Some e \<and> eventId (booking oid e) = Some oid \<and>
      isNew (booking oid e)"
    by (simp add: booking_def)
  have ok: "fst (fst (bookingSchema_pre_save env_up (booking ''e1'' ''  USER@Example.com '') fresh_world)) = None"
    by (simp add: pre_save_email_valid[of _ "''  USER@Example.com ''"] b n t m ids nofault Let_def)
  from bookingSchema_pre_save_validates[of "booking ''e1'' ''  USER@Example.com ''"
      "''  USER@Example.com ''" env_up fresh_world "''e1''"] b n t m
  have 1: "email (snd (fst (bookingSchema_pre_save env_up (booking ''e1'' ''  USER@Example.com '') fresh_world))) =
     Some ''user@example.com''"
    by simp
  from bookingSchema_pre_save_validates[of "booking ''e1'' ''user@localhost''"
      "''user@localhost''" env_up fresh_world "''e1''"] b n2 m2
  have 2: "fst (fst (bookingSchema_pre_save env_up (booking ''e1'' ''user@localhost'') fresh_world)) \<noteq> None"
    by simp
  from bookingSchema_pre_save_validates[of "booking ''e9'' ''  USER@Example.com ''"
      "''  USER@Example.com ''" env_up fresh_world "''e9''"] b n t m ids nofault
  have 3: "fst (fst (bookingSchema_pre_save env_up (booking ''e9'' ''  USER@Example.com '') fresh_world)) =
     Some (JsError ''Referenced event does not exist.'')"
    by simp
  from ok 1 2 3 show ?thesis by blast
qed

section \<open>C9: no store access on a validation failure\<close>

lemma GET_valid_acquires:
  "validateSlug (GET_rawSlug req) = Ok s \<Longrightarrow>
     take (Suc (length (accesses w))) (accesses (snd (GET env req w))) = accesses w @ [Acquire]"
proof -
  assume v: "validateSlug (GET_rawSlug req) = Ok s"
  have c: "\<exists>xs. accesses (snd (connectDB env w)) = accesses w @ [Acquire] @ xs"
    by (simp add: connectDB_def await_promise_def Let_def split: option.splits sum.splits)
  have q: "\<And>w'. accesses (snd (Event_findOne env s w')) = accesses w' @ [Query (FindOne s)]"
    by (simp add: Event_findOne_def run_query_def Let_def split: option.splits)
  obtain r w1 where cw: "connectDB env w = (r, w1)" by (cases "connectDB env w")
  obtain r2 w2 where fw: "Event_findOne env s w1 = (r2, w2)" by (cases "Event_findOne env s w1")
  from c cw obtain xs where x: "accesses w1 = accesses w @ [Acquire] @ xs" by auto
  from q[of w1] fw have y: "accesses w2 = accesses w1 @ [Query (FindOne s)]" by simp
  have "snd (GET env req w) = w1 \<or> snd (GET env req w) = w2"
    using v cw fw by (simp add: GET_def split: sum.splits option.splits)
  with x y show ?thesis by auto
qed

text \<open>
  C9. For every request whose slug fails validation (missing, empty after normalization,
  or malformed), the retrieval handler answers with the client error, status 400, and
  the state is what it was: the cache and the number of connection attempts are
  unchanged, and nothing is added to the accesses, so the connection manager was not
  called and the store was not queried.
\<close>

theorem GET_invalid_no_access:
  assumes "GET_rawSlug req = None \<or>
           (\<exists>raw. GET_rawSlug req = Some raw \<and>
                  (toLowerCase (trim raw) = [] \<or> \<not> rx_test slugPattern (toLowerCase (trim raw))))"
  shows "snd (GET env req w) = w \<and> accesses (snd (GET env req w)) = accesses w \<and>
         status (fst (GET env req w)) = 400 \<and>
         error (json (fst (GET env req w))) \<in> {MISSING_SLUG, INVALID_SLUG_FORMAT}"
proof -
  have "\<exists>code msg. validateSlug (GET_rawSlug req) = NotOk 400 code msg \<and>
          code \<in> {MISSING_SLUG, INVALID_SLUG_FORMAT}"
    using assms by (auto simp: validateSlug_def Let_def toLowerCase_def trim_def)
  then obtain code msg where "validateSlug (GET_rawSlug req) = NotOk 400 code msg"
    and "code \<in> {MISSING_SLUG, INVALID_SLUG_FORMAT}" by blast
  with GET_not_ok[OF this(1), of env w] show ?thesis by simp
qed

theorem GET_invalid_no_access_witness:
  "snd (GET env_up (req_param ''My Event!'' ''/api/events/My%20Event!'') fresh_world) = fresh_world \<and>
   accesses (snd (GET env_up (req_param ''My Event!'' ''/api/events/My%20Event!'') fresh_world)) = [] \<and>
   status (fst (GET env_up (req_param ''My Event!'' ''/api/events/My%20Event!'') fresh_world)) = 400 \<and>
   accesses (snd (GET env_up (req_path ''/api/events/my-event'') fresh_world)) =
     [Acquire, Query (FindOne ''my-event'')]"
proof -
  have r: "GET_rawSlug (req_param ''My Event!'' ''/api/events/My%20Event!'') = Some ''My Event!''"
    by (simp add: handler_defs)
  have n: "toLowerCase (trim ''My Event!'') = ''my event!''"
    by (simp add: str_defs cls_defs)
  have p: "\<not> rx_test slugPattern ''my event!''"
    by (simp add: slugPattern_def str_defs cls_defs rx_eval)
  have a: "accesses fresh_world = []" by (simp add: fresh_world_def)
  have v: "accesses (snd (GET env_up (req_path ''/api/events/my-event'') fresh_world)) =
     [Acquire, Query (FindOne ''my-event'')]"
    by (simp add: handler_defs sample_defs store_defs str_defs cls_defs rx_eval)
  from GET_invalid_no_access[of "req_param ''My Event!'' ''/api/events/My%20Event!''" env_up fresh_world] r n p a v
  show ?thesis by simp
qed

section \<open>C10: the time normalizer is idempotent\<close>

subsection \<open>The 24-hour pattern\<close>

lemma not_01_and_2: "Rng CHR ''0'' CHR ''1'' h \<Longrightarrow> h \<noteq> CHR ''2''"
  by (auto simp: Rng_def)

lemma twentyFourHour_rxm:
  "rxm twentyFourHourPattern (0, t, Map.empty) =
     (if hhmm t then [(5, [], [1 \<mapsto> take 2 t, 2 \<mapsto> drop 3 t])] else [])"
  by (auto simp: twentyFourHourPattern_def hhmm_def Chr_def dest: not_01_and_2
      split: list.splits)

lemma twentyFourHour_match:
  "rx_match twentyFourHourPattern t =
     (if hhmm t then Some [1 \<mapsto> take 2 t, 2 \<mapsto> drop 3 t] else None)"
proof -
  have "rx_search twentyFourHourPattern 0 t =
      (case rxm twentyFourHourPattern (0, t, Map.empty) of [] \<Rightarrow> None | m # _ \<Rightarrow> Some (0, m))"
    unfolding twentyFourHourPattern_def by (rule rx_search_Bol)
  then show ?thesis by (simp add: rx_match_def twentyFourHour_rxm)
qed

lemma hhmm_groups: "hhmm t \<Longrightarrow> take 2 t @ CHR '':'' # drop 3 t = t"
  by (auto simp: hhmm_def split: list.splits)

lemma digit_plain:
  "Rng CHR ''0'' CHR ''9'' c \<Longrightarrow> \<not> is_space c \<and> \<not> is_upper c"
  by (auto simp: Rng_def is_space_def is_upper_def less_eq_char_def)

lemma digit_sub:
  "Rng CHR ''0'' CHR ''1'' c \<or> Rng CHR ''0'' CHR ''3'' c \<or> Rng CHR ''0'' CHR ''5'' c \<or> c = CHR ''2''
     \<Longrightarrow> Rng CHR ''0'' CHR ''9'' c"
  by (auto simp: Rng_def less_eq_char_def)

lemma colon_plain: "\<not> is_space CHR '':'' \<and> \<not> is_upper CHR '':''"
  by (simp add: Rng_def is_space_def is_upper_def)

lemma hhmm_plain:
  assumes "hhmm t"
  shows "toLowerCase (trim t) = t"
proof -
  from assms obtain h1 h2 m1 m2 where t: "t = [h1, h2, CHR '':'', m1, m2]"
    and d: "Rng CHR ''0'' CHR ''9'' h1" "Rng CHR ''0'' CHR ''9'' h2"
      "Rng CHR ''0'' CHR ''9'' m1" "Rng CHR ''0'' CHR ''9'' m2"
    by (auto simp: hhmm_def is_digit_def split: list.splits intro: digit_sub)
  from d colon_plain digit_plain show ?thesis
    by (simp add: t trim_def toLowerCase_def toLowerCase_char_def)
qed

lemma normalizeTime_hhmm:
  assumes "hhmm t"
  shows "normalizeTime t = Inr t"
  using assms
  by (simp add: normalizeTime_def hhmm_plain twentyFourHour_match grp_def hhmm_groups)

subsection \<open>The 12-hour pattern\<close>

lemma hhmm_build: "hh_ok h \<Longrightarrow> mm_ok m \<Longrightarrow> hhmm (h @ '':'' @ m)"
  by (auto simp: hh_ok_def mm_ok_def hhmm_def split: list.splits)

lemma hour_string:
  "n < 24 \<Longrightarrow> hh_ok (padStart 2 CHR ''0'' (Number_toString n))"
proof -
  have "list_all (\<lambda>n. hh_ok (padStart 2 CHR ''0'' (Number_toString n))) [0..<24]"
    by code_simp
  moreover assume "n < 24"
  ultimately show ?thesis by (simp add: list_all_iff)
qed

text \<open>What the groups of the 12-hour pattern hold after a match.\<close>

lemma twelveHour_groups:
  assumes "(j, s', m) \<in> set (rxm twelveHourPattern (0, s, Map.empty))"
  shows "(\<exists>ds. m 1 = Some ds \<and> ds \<noteq> [] \<and> takeWhile is_digit ds = ds) \<and>
         (m 2 = None \<or> (\<exists>v. m 2 = Some v \<and> mm_ok v))"
proof -
  let ?G1 = "Grp 1 (Rep is_digit 1 (Some 2))"
  let ?O = "Opt (Seq (Chr CHR '':'') (Grp 2 (Seq (Cls (Rng CHR ''0'' CHR ''5'')) (Cls is_digit))))"
  let ?S = "Rep is_space 0 None"
  let ?G3 = "Grp 3 (Alt (Seq (Chr CHR ''a'') (Chr CHR ''m'')) (Seq (Chr CHR ''p'') (Chr CHR ''m'')))"
  from assms obtain st0 st1 st2 st3 st4 where
    0: "st0 \<in> set (rxm Bol (0, s, Map.empty))" and
    1: "st1 \<in> set (rxm ?G1 st0)" and
    2: "st2 \<in> set (rxm ?O st1)" and
    3: "st3 \<in> set (rxm ?S st2)" and
    4: "st4 \<in> set (rxm ?G3 st3)" and
    5: "(j, s', m) \<in> set (rxm Eol st4)"
    unfolding twelveHourPattern_def rxm_Seq_mem by blast
  obtain i1 s1 c1 where st1: "st1 = (i1, s1, c1)" by (cases st1)
  obtain i2 s2 c2 where st2: "st2 = (i2, s2, c2)" by (cases st2)
  obtain i3 s3 c3 where st3: "st3 = (i3, s3, c3)" by (cases st3)
  obtain i4 s4 c4 where st4: "st4 = (i4, s4, c4)" by (cases st4)
  from 0 have st0: "st0 = (0, s, Map.empty)" by simp
  define k where "k = i1"
  from 1 st0 st1 have k: "1 \<le> k" "k \<le> length (takeWhile is_digit s)"
    and c1: "c1 = [1 \<mapsto> take k s]"
    by (auto simp: Let_def k_def simp del: upt_Suc)
  have "take k s = take k (takeWhile is_digit s)"
    using k(2) by (metis takeWhile_dropWhile_id take_append diff_is_0_eq' take_0 append_Nil2)
  then have ds: "take k s \<noteq> [] \<and> takeWhile is_digit (take k s) = take k s"
    using k by (auto simp: takeWhile_eq_all_conv dest: in_set_takeD set_takeWhileD)
  have c2: "c2 = c1 \<or> (\<exists>v. c2 = c1(2 \<mapsto> v) \<and> mm_ok v)"
  proof -
    from 2 have "st2 = st1 \<or>
        st2 \<in> set (rxm (Seq (Chr CHR '':'') (Grp 2 (Seq (Cls (Rng CHR ''0'' CHR ''5'')) (Cls is_digit)))) st1)"
      by auto
    then show ?thesis
    proof
      assume "st2 = st1"
      with st1 st2 show ?thesis by simp
    next
      assume "st2 \<in> set (rxm (Seq (Chr CHR '':'') (Grp 2 (Seq (Cls (Rng CHR ''0'' CHR ''5'')) (Cls is_digit)))) st1)"
      then obtain x xs j r c' where "s1 = x # xs"
        and "(j, r, c') \<in> set (rxm (Seq (Cls (Rng CHR ''0'' CHR ''5'')) (Cls is_digit)) (Suc i1, xs, c1))"
        and "st2 = (j, r, c'(2 \<mapsto> take (j - Suc i1) xs))"
        unfolding rxm_Seq_mem st1 Chr_def rxm_Cls_mem rxm_Grp_mem by auto
      then show ?thesis
        unfolding rxm_Cls2_mem st2 by (auto simp: mm_ok_def)
    qed
  qed
  from 3 st2 st3 have c3: "c3 = c2"
    by (auto simp: Let_def)
  from 4 st3 st4 have c4: "\<exists>v. c4 = c3(3 \<mapsto> v)"
    unfolding rxm_Grp_mem Chr_def rxm.simps(5) set_append Un_iff rxm_Cls2_mem by auto
  from 5 st4 have m: "m = c4"
    by (auto split: if_splits)
  from c1 c2 c3 c4 m ds show ?thesis by auto
qed

lemma twelveHour_match:
  assumes "rx_match twelveHourPattern s = Some m"
  shows "(\<exists>ds. m 1 = Some ds \<and> ds \<noteq> [] \<and> takeWhile is_digit ds = ds) \<and>
         (m 2 = None \<or> (\<exists>v. m 2 = Some v \<and> mm_ok v))"
proof -
  have "rx_search twelveHourPattern 0 s =
      (case rxm twelveHourPattern (0, s, Map.empty) of [] \<Rightarrow> None | st # _ \<Rightarrow> Some (0, st))"
    unfolding twelveHourPattern_def by (rule rx_search_Bol)
  with assms obtain j s' where "(j, s', m) \<in> set (rxm twelveHourPattern (0, s, Map.empty))"
    by (auto simp: rx_match_def split: list.splits)
  then show ?thesis by (rule twelveHour_groups)
qed

subsection \<open>The result\<close>

lemma normalizeTime_result:
  assumes "normalizeTime s = Inr t"
  shows "hhmm t"
proof (cases "rx_match twentyFourHourPattern (toLowerCase (trim s))")
  case (Some m24)
  then have h: "hhmm (toLowerCase (trim s))"
    and m: "m24 = [1 \<mapsto> take 2 (toLowerCase (trim s)), 2 \<mapsto> drop 3 (toLowerCase (trim s))]"
    by (auto simp: twentyFourHour_match split: if_splits)
  from assms Some m have "t = toLowerCase (trim s)"
    by (simp add: normalizeTime_def grp_def hhmm_groups[OF h])
  with h show ?thesis by simp
next
  case None
  show ?thesis
  proof (cases "rx_match twelveHourPattern (toLowerCase (trim s))")
    case n12: None
    with None assms show ?thesis by (simp add: normalizeTime_def)
  next
    case (Some m)
    from twelveHour_match[OF Some] obtain ds where
      ds: "m 1 = Some ds" "ds \<noteq> []" "takeWhile is_digit ds = ds" and
      mm: "m 2 = None \<or> (\<exists>v. m 2 = Some v \<and> mm_ok v)"
      by blast
    define minute where "minute = (case m 2 of Some v \<Rightarrow> v | None \<Rightarrow> ''00'')"
    have minute: "mm_ok minute"
      using mm by (auto simp: minute_def mm_ok_def Rng_def is_digit_def)
    have "parseInt10 (grp m 1) = Some (foldl (\<lambda>n c. 10 * n + digit_val c) 0 ds)"
      using ds(2) unfolding parseInt10_def grp_def ds(1) option.case Let_def ds(3) by simp
    then obtain h where h: "parseInt10 (grp m 1) = Some h" ..
    define hour where "hour = (if m 3 = Some ''pm'' \<and> h \<noteq> 12 then h + 12
                               else if m 3 = Some ''am'' \<and> h = 12 then 0 else h)"
    from assms None Some h have ok: "\<not> (h < 1 \<or> h > 12)"
      and t: "t = padStart 2 CHR ''0'' (Number_toString hour) @ '':'' @ minute"
      by (auto simp: normalizeTime_def Let_def minute_def hour_def split: if_splits)
    from ok have "hour < 24" by (auto simp: hour_def)
    from hhmm_build[OF hour_string[OF this] minute] t show ?thesis by simp
  qed
qed

text \<open>
  C10. Every successful output of the time normalizer matches the strict 24-hour
  pattern \<open>/^([01]\d|2[0-3]):([0-5]\d)$/\<close>, and the normalizer maps it to itself.
\<close>

theorem normalizeTime_idempotent:
  assumes "normalizeTime s = Inr t"
  shows "rx_test twentyFourHourPattern t \<and> normalizeTime t = Inr t"
proof -
  from assms have "hhmm t" by (rule normalizeTime_result)
  then show ?thesis
    by (simp add: rx_test_match twentyFourHour_match normalizeTime_hhmm)
qed

text \<open>An instance: \<open>"  1:30 PM "\<close> gives \<open>"13:30"\<close>, which gives itself.\<close>

theorem normalizeTime_idempotent_witness:
  "normalizeTime ''  1:30 PM '' = Inr ''13:30'' \<and>
   rx_test twentyFourHourPattern ''13:30'' \<and> normalizeTime ''13:30'' = Inr ''13:30''"
proof -
  have "normalizeTime ''  1:30 PM '' = Inr ''13:30''"
    by (simp add: normalizeTime_def twentyFourHourPattern_def twelveHourPattern_def
        str_defs cls_defs rx_eval cong: prod.case_cong_weak)
  with normalizeTime_idempotent[of "''  1:30 PM ''" "''13:30''"] show ?thesis by simp
qed

end
